theory Spec2Isabelle
  imports Complex_Main "HOL-Library.Word" "HOL-Library.Signed_Division"
begin

unbundle bit_operations_syntax

section \<open>Go integers, bytes and text\<close>

text \<open>
  The program is Go, built for a 64-bit target: \<^verbatim>\<open>int\<close> is a signed 64-bit
  integer whose arithmetic wraps around. A Go \<^verbatim>\<open>int\<close> is modelled as an
  \<^typ>\<open>int\<close> with the wrap-around written out at every addition, subtraction,
  multiplication and negation the source performs. Go's \<^verbatim>\<open>/\<close> and
  \<^verbatim>\<open>%\<close> truncate towards zero: they are \<open>sdiv\<close> and \<open>smod\<close>.
  A \<^verbatim>\<open>byte\<close> is an 8-bit word, \<^verbatim>\<open>uint16\<close> and \<^verbatim>\<open>uint32\<close> are
  16-bit and 32-bit words, and an \<^verbatim>\<open>int32\<close> is a 32-bit word read with
  \<^const>\<open>sint\<close>.
\<close>

type_synonym byte = "8 word"

definition wrap64 :: "int \<Rightarrow> int" where
  "wrap64 i = (i + 2 ^ 63) mod 2 ^ 64 - 2 ^ 63"

definition add64 :: "int \<Rightarrow> int \<Rightarrow> int" where
  "add64 a b = wrap64 (a + b)"

definition sub64 :: "int \<Rightarrow> int \<Rightarrow> int" where
  "sub64 a b = wrap64 (a - b)"

definition mul64 :: "int \<Rightarrow> int \<Rightarrow> int" where
  "mul64 a b = wrap64 (a * b)"

definition neg64 :: "int \<Rightarrow> int" where
  "neg64 a = wrap64 (- a)"

text \<open>\<^verbatim>\<open>len(b)\<close> of a slice, as a Go \<^verbatim>\<open>int\<close>.\<close>

definition len :: "'a list \<Rightarrow> int" where
  "len b = int (length b)"

text \<open>The slice expression \<^verbatim>\<open>b[lo:hi]\<close>, used by the source only within bounds.\<close>

definition slice :: "'a list \<Rightarrow> nat \<Rightarrow> nat \<Rightarrow> 'a list" where
  "slice b lo hi = take (hi - lo) (drop lo b)"

text \<open>
  \<^verbatim>\<open>binary.LittleEndian.Uint16\<close> and \<^verbatim>\<open>binary.LittleEndian.Uint32\<close> of the
  standard library: \<^verbatim>\<open>uint32(b[0]) | uint32(b[1])<<8 | uint32(b[2])<<16 | uint32(b[3])<<24\<close>.
\<close>

definition Uint16 :: "byte list \<Rightarrow> 16 word" where
  "Uint16 b = ucast (b ! 0) OR push_bit 8 (ucast (b ! 1))"

definition Uint32 :: "byte list \<Rightarrow> 32 word" where
  "Uint32 b = ucast (b ! 0) OR push_bit 8 (ucast (b ! 1))
     OR push_bit 16 (ucast (b ! 2)) OR push_bit 24 (ucast (b ! 3))"

text \<open>The verb \<^verbatim>\<open>%d\<close> of \<^verbatim>\<open>fmt.Sprintf\<close>: a decimal numeral, with a minus sign
  when negative.\<close>

function showNat :: "nat \<Rightarrow> string" where
  "showNat n =
     (if n < 10 then [''0123456789'' ! n]
      else showNat (n div 10) @ [''0123456789'' ! (n mod 10)])"
  by pat_completeness auto
termination
  by (relation "measure id") auto

declare showNat.simps [simp del]

definition showInt :: "int \<Rightarrow> string" where
  "showInt i = (if i < 0 then CHR ''-'' # showNat (nat (- i)) else showNat (nat i))"

definition newline :: string where
  "newline = [CHR 0x0A]"

section \<open>The bitmap renderer (erc721.go)\<close>

subsection \<open>Headers\<close>

record BMPHeader =
  Signature :: "16 word"
  FileSize :: "32 word"
  Reserved :: "32 word"
  DataOffset :: "32 word"

record BMPInfoHeader =
  Size :: "32 word"
  Width :: "32 word"
  Height :: "32 word"
  ColorPlanes :: "16 word"
  BitsPerPixel :: "16 word"
  Compression :: "32 word"
  ImageSize :: "32 word"
  HorizontalRes :: "32 word"
  VerticalRes :: "32 word"
  ColorsInPalette :: "32 word"
  ImportantColors :: "32 word"

text \<open>Lines 308-315: the 14-byte file header.\<close>

definition parseHeader :: "byte list \<Rightarrow> BMPHeader" where
  "parseHeader bmpData =
     \<lparr> Signature = Uint16 (slice bmpData 0 2),
       FileSize = Uint32 (slice bmpData 2 6),
       Reserved = Uint32 (slice bmpData 6 10),
       DataOffset = Uint32 (slice bmpData 10 14) \<rparr>"

text \<open>Lines 318-329: the 40-byte info header. \<open>Width\<close> and \<open>Height\<close> are
  \<^verbatim>\<open>int32\<close>: the same 32 bits, read as signed.\<close>

definition parseInfoHeader :: "byte list \<Rightarrow> BMPInfoHeader" where
  "parseInfoHeader bmpData =
     \<lparr> Size = Uint32 (slice bmpData 14 18),
       Width = Uint32 (slice bmpData 18 22),
       Height = Uint32 (slice bmpData 22 26),
       ColorPlanes = Uint16 (slice bmpData 26 28),
       BitsPerPixel = Uint16 (slice bmpData 28 30),
       Compression = Uint32 (slice bmpData 30 34),
       ImageSize = Uint32 (slice bmpData 34 38),
       HorizontalRes = Uint32 (slice bmpData 38 42),
       VerticalRes = Uint32 (slice bmpData 42 46),
       ColorsInPalette = Uint32 (slice bmpData 46 50),
       ImportantColors = Uint32 (slice bmpData 50 54) \<rparr>"

subsection \<open>Errors\<close>

text \<open>
  The errors of \<^verbatim>\<open>decodeBMPToBitfield\<close>, one per \<^verbatim>\<open>fmt.Errorf\<close> of the source, and
  the run-time panic of an index expression \<^verbatim>\<open>bmpData[i]\<close> whose index is out of
  range.
\<close>

datatype bmp_error =
    InvalidDataURI
  | Base64Failure
  | TooShort
  | BadSignature
  | UnsupportedDepth "16 word"
  | TruncatedData
  | IndexOutOfRange

text \<open>The index expression \<^verbatim>\<open>bmpData[i]\<close>: Go panics outside \<open>0 \<le> i < len\<close>.\<close>

definition index :: "byte list \<Rightarrow> int \<Rightarrow> bmp_error + byte" where
  "index bmpData i =
     (if 0 \<le> i \<and> i < len bmpData then Inr (bmpData ! nat i) else Inl IndexOutOfRange)"

subsection \<open>Geometry\<close>

text \<open>Lines 344-347.\<close>

definition bytesPerPixelOf :: "16 word \<Rightarrow> int" where
  "bytesPerPixelOf bpp = (if bpp = 1 then 0 else uint bpp sdiv 8)"

text \<open>Line 348: \<^verbatim>\<open>((width*int(infoHeader.BitsPerPixel) + 31) / 32) * 4\<close>.\<close>

definition rowSizeOf :: "int \<Rightarrow> 16 word \<Rightarrow> int" where
  "rowSizeOf width bpp = mul64 (add64 (mul64 width (uint bpp)) 31 sdiv 32) 4"

subsection \<open>Pixels\<close>

text \<open>Lines 423-433: the brightness brackets.\<close>

definition brightnessChar ::
  "string \<Rightarrow> string \<Rightarrow> string \<Rightarrow> string \<Rightarrow> string \<Rightarrow> byte \<Rightarrow> string" where
  "brightnessChar c0 c1 c2 c3 c4 brightness =
     (if brightness \<ge> 204 then c0
      else if brightness \<ge> 153 then c1
      else if brightness \<ge> 102 then c2
      else if brightness \<ge> 51 then c3
      else c4)"

text \<open>Line 416: \<^verbatim>\<open>byte((int(r)*299 + int(g)*587 + int(b)*114) / 1000)\<close>.\<close>

definition luminance :: "byte \<Rightarrow> byte \<Rightarrow> byte \<Rightarrow> byte" where
  "luminance r g b =
     word_of_int (add64 (add64 (mul64 (uint r) 299) (mul64 (uint g) 587)) (mul64 (uint b) 114)
                  sdiv 1000)"

text \<open>Lines 376-385: one cell of a 1-bit row. The shift count \<open>7 - x % 8\<close> is
  between 0 and 7, since the loop has \<open>0 \<le> x\<close>.\<close>

definition cell1 :: "byte list \<Rightarrow> string \<Rightarrow> string \<Rightarrow> int \<Rightarrow> int \<Rightarrow> bmp_error + string" where
  "cell1 bmpData c0 c1 rowOffset x =
     (let byteOffset = add64 rowOffset (x sdiv 8);
          bitOffset = sub64 7 (x smod 8)
      in if byteOffset < len bmpData then
           (case index bmpData byteOffset of
              Inl e \<Rightarrow> Inl e
            | Inr v \<Rightarrow>
                (let bit = drop_bit (nat bitOffset) v AND 1
                 in if bit = 1 then Inr c1 else Inr c0))
         else Inr [])"

text \<open>Lines 404-434: one cell of a row of any other bit depth.\<close>

definition cellN ::
  "byte list \<Rightarrow> 16 word \<Rightarrow> int \<Rightarrow> string \<Rightarrow> string \<Rightarrow> string \<Rightarrow> string \<Rightarrow> string \<Rightarrow>
     int \<Rightarrow> int \<Rightarrow> bmp_error + string" where
  "cellN bmpData bpp bytesPerPixel c0 c1 c2 c3 c4 rowOffset x =
     (let pixelOffset = add64 rowOffset (mul64 x bytesPerPixel)
      in if add64 pixelOffset bytesPerPixel \<le> len bmpData then
           (if bpp = 8 then
              (case index bmpData pixelOffset of
                 Inl e \<Rightarrow> Inl e
               | Inr brightness \<Rightarrow> Inr (brightnessChar c0 c1 c2 c3 c4 brightness))
            else if bpp = 24 \<or> bpp = 32 then
              (case index bmpData pixelOffset of
                 Inl e \<Rightarrow> Inl e
               | Inr b \<Rightarrow>
                   (case index bmpData (add64 pixelOffset 1) of
                      Inl e \<Rightarrow> Inl e
                    | Inr g \<Rightarrow>
                        (case index bmpData (add64 pixelOffset 2) of
                           Inl e \<Rightarrow> Inl e
                         | Inr r \<Rightarrow> Inr (brightnessChar c0 c1 c2 c3 c4 (luminance r g b)))))
            else Inr (brightnessChar c0 c1 c2 c3 c4 128))
         else Inr [])"

subsection \<open>Loops\<close>

text \<open>
  The inner loop \<^verbatim>\<open>for x := 0; x < width; x++\<close>, appending the text of each cell; a
  panic in a cell ends the call. The counter stays below \<open>width\<close>, an
  \<^verbatim>\<open>int32\<close>, so \<open>x++\<close> does not wrap.
\<close>

function forX :: "(int \<Rightarrow> bmp_error + string) \<Rightarrow> int \<Rightarrow> int \<Rightarrow> bmp_error + string" where
  "forX cell x width =
     (if x < width then
        (case cell x of
           Inl e \<Rightarrow> Inl e
         | Inr s \<Rightarrow>
             (case forX cell (x + 1) width of
                Inl e \<Rightarrow> Inl e
              | Inr t \<Rightarrow> Inr (s @ t)))
      else Inr [])"
  by pat_completeness auto
termination
  by (relation "measure (\<lambda>(cell, x, width). nat (width - x))") auto

declare forX.simps [simp del]

text \<open>
  The outer loop \<^verbatim>\<open>for y := startY; y != endY; y += stepY\<close>. Nothing in the loop
  itself bounds it, so it is a partial function: \<open>None\<close> is a loop that does not
  end.
\<close>

partial_function (option) forY ::
  "(int \<Rightarrow> bmp_error + string) \<Rightarrow> int \<Rightarrow> int \<Rightarrow> int \<Rightarrow> (bmp_error + string) option" where
  "forY row y endY stepY =
     (if y \<noteq> endY then
        (case row y of
           Inl e \<Rightarrow> Some (Inl e)
         | Inr s \<Rightarrow>
             Option.bind (forY row (add64 y stepY) endY stepY)
               (\<lambda>r. Some (case r of Inl e \<Rightarrow> Inl e | Inr t \<Rightarrow> Inr (s @ t))))
      else Some (Inr []))"

declare forY.simps [code]

text \<open>Lines 373-387 and 401-436: one row, with its indent and its line end.\<close>

definition renderRow ::
  "(int \<Rightarrow> int \<Rightarrow> bmp_error + string) \<Rightarrow> int \<Rightarrow> int \<Rightarrow> int \<Rightarrow> int \<Rightarrow> bmp_error + string" where
  "renderRow cell pixelDataStart rowSize width y =
     (let rowOffset = add64 pixelDataStart (mul64 y rowSize)
      in case forX (cell rowOffset) 0 width of
           Inl e \<Rightarrow> Inl e
         | Inr cells \<Rightarrow> Inr (''    '' @ cells @ newline))"

text \<open>Lines 364-371 and 392-399: where the rows start, end and step.\<close>

definition startY :: "bool \<Rightarrow> int \<Rightarrow> int" where
  "startY isTopDown height = (if isTopDown then 0 else sub64 height 1)"

definition endY :: "bool \<Rightarrow> int \<Rightarrow> int" where
  "endY isTopDown height = (if isTopDown then height else - 1)"

definition stepY :: "bool \<Rightarrow> int" where
  "stepY isTopDown = (if isTopDown then 1 else - 1)"

subsection \<open>The renderer\<close>

text \<open>Lines 358-359: the two heading lines.\<close>

definition heading :: "int \<Rightarrow> int \<Rightarrow> 16 word \<Rightarrow> string" where
  "heading width height bpp =
     ''  Dimensions: '' @ showInt width @ ''x'' @ showInt height @ '', BPP: ''
       @ showNat (unat bpp) @ newline @ ''  Bitfield:'' @ newline"

text \<open>Lines 336-341: the sign of the height is kept, then the height made positive.\<close>

definition isTopDownOf :: "BMPInfoHeader \<Rightarrow> bool" where
  "isTopDownOf infoHeader = (sint (Height infoHeader) < 0)"

definition heightOf :: "BMPInfoHeader \<Rightarrow> int" where
  "heightOf infoHeader =
     (if isTopDownOf infoHeader then neg64 (sint (Height infoHeader))
      else sint (Height infoHeader))"

text \<open>Lines 303-440: \<^verbatim>\<open>decodeBMPToBitfield\<close> from the decoded bytes on.\<close>

definition decodeBMPData ::
  "byte list \<Rightarrow> string \<Rightarrow> string \<Rightarrow> string \<Rightarrow> string \<Rightarrow> string \<Rightarrow> (bmp_error + string) option"
  where
  "decodeBMPData bmpData c0 c1 c2 c3 c4 =
     (if len bmpData < 54 then Some (Inl TooShort)
      else if Signature (parseHeader bmpData) \<noteq> 0x4D42 then Some (Inl BadSignature)
      else
        (let header = parseHeader bmpData;
             infoHeader = parseInfoHeader bmpData;
             bpp = BitsPerPixel infoHeader
         in if bpp \<noteq> 1 \<and> bpp \<noteq> 4 \<and> bpp \<noteq> 8 \<and> bpp \<noteq> 24 \<and> bpp \<noteq> 32
            then Some (Inl (UnsupportedDepth bpp))
            else
              (let width = sint (Width infoHeader);
                   isTopDown = isTopDownOf infoHeader;
                   height = heightOf infoHeader;
                   bytesPerPixel = bytesPerPixelOf bpp;
                   rowSize = rowSizeOf width bpp;
                   pixelDataStart = uint (DataOffset header)
               in if add64 pixelDataStart (mul64 rowSize height) > len bmpData
                  then Some (Inl TruncatedData)
                  else
                    (let cell =
                           (if bpp = 1 then cell1 bmpData c0 c1
                            else cellN bmpData bpp bytesPerPixel c0 c1 c2 c3 c4)
                     in map_option
                          (\<lambda>r. case r of
                                 Inl e \<Rightarrow> Inl e
                               | Inr rows \<Rightarrow> Inr (heading width height bpp @ rows))
                          (forY (renderRow cell pixelDataStart rowSize width)
                             (startY isTopDown height) (endY isTopDown height)
                             (stepY isTopDown))))))"

text \<open>
  Lines 288-301: the data URI. \<^verbatim>\<open>base64.StdEncoding.DecodeString\<close> is the standard
  library's; it is the parameter \<open>decodeString\<close>, \<open>None\<close> when it returns an error.
\<close>

definition decodeBMPToBitfield ::
  "(string \<Rightarrow> byte list option) \<Rightarrow> string \<Rightarrow> string \<Rightarrow> string \<Rightarrow> string \<Rightarrow> string \<Rightarrow> string \<Rightarrow>
     (bmp_error + string) option" where
  "decodeBMPToBitfield decodeString dataURI c0 c1 c2 c3 c4 =
     (let prefix = ''data:image/bmp;base64,''
      in if take (length prefix) dataURI \<noteq> prefix then Some (Inl InvalidDataURI)
         else
           (case decodeString (drop (length prefix) dataURI) of
              None \<Rightarrow> Some (Inl Base64Failure)
            | Some bmpData \<Rightarrow> decodeBMPData bmpData c0 c1 c2 c3 c4))"

subsection \<open>Building bitmap buffers\<close>

text \<open>
  The writers that mirror \<^const>\<open>Uint16\<close> and \<^const>\<open>Uint32\<close>, and a buffer with
  the two-byte magic, a 14-byte file header and a 40-byte info header in front of the
  pixel bytes. They build the concrete buffers on which the theorems are exercised.
\<close>

definition putUint16 :: "16 word \<Rightarrow> byte list" where
  "putUint16 v = [ucast v, ucast (drop_bit 8 v)]"

definition putUint32 :: "32 word \<Rightarrow> byte list" where
  "putUint32 v = [ucast v, ucast (drop_bit 8 v), ucast (drop_bit 16 v), ucast (drop_bit 24 v)]"

definition bmpFile :: "32 word \<Rightarrow> 32 word \<Rightarrow> 32 word \<Rightarrow> 16 word \<Rightarrow> byte list \<Rightarrow> byte list" where
  "bmpFile dataOffset width height bpp pixels =
     [0x42, 0x4D] @ putUint32 0 @ putUint32 0 @ putUint32 dataOffset
       @ putUint32 40 @ putUint32 width @ putUint32 height @ putUint16 1 @ putUint16 bpp
       @ putUint32 0 @ putUint32 0 @ putUint32 0 @ putUint32 0 @ putUint32 0 @ putUint32 0
       @ pixels"

subsection \<open>Names for the proofs\<close>

text \<open>
  The local variables of \<^verbatim>\<open>decodeBMPToBitfield\<close> as functions of the buffer, the
  cell function the renderer selects, and the rows a loop visits as a list, with the
  sequential composition of their texts.
\<close>

fun seqRows :: "(int \<Rightarrow> bmp_error + string) \<Rightarrow> int list \<Rightarrow> bmp_error + string" where
  "seqRows row [] = Inr []"
| "seqRows row (y # ys) =
     (case row y of
        Inl e \<Rightarrow> Inl e
      | Inr s \<Rightarrow> (case seqRows row ys of Inl e \<Rightarrow> Inl e | Inr t \<Rightarrow> Inr (s @ t)))"

definition rowOrder :: "bool \<Rightarrow> int \<Rightarrow> int list" where
  "rowOrder isTopDown height = (if isTopDown then [0..height - 1] else rev [0..height - 1])"

definition cellOf ::
  "byte list \<Rightarrow> string \<Rightarrow> string \<Rightarrow> string \<Rightarrow> string \<Rightarrow> string \<Rightarrow> int \<Rightarrow> int \<Rightarrow> bmp_error + string" where
  "cellOf bmpData c0 c1 c2 c3 c4 =
     (let bpp = BitsPerPixel (parseInfoHeader bmpData)
      in if bpp = 1 then cell1 bmpData c0 c1
         else cellN bmpData bpp (bytesPerPixelOf bpp) c0 c1 c2 c3 c4)"

abbreviation imgWidth :: "byte list \<Rightarrow> int" where
  "imgWidth b \<equiv> sint (Width (parseInfoHeader b))"

abbreviation imgBpp :: "byte list \<Rightarrow> 16 word" where
  "imgBpp b \<equiv> BitsPerPixel (parseInfoHeader b)"

abbreviation imgHeight :: "byte list \<Rightarrow> int" where
  "imgHeight b \<equiv> heightOf (parseInfoHeader b)"

abbreviation imgStart :: "byte list \<Rightarrow> int" where
  "imgStart b \<equiv> uint (DataOffset (parseHeader b))"

definition negWidthBmp :: "byte list" where
  "negWidthBmp = bmpFile 84 (- 33) 1 8 []"

definition shortBmp :: "byte list" where
  "shortBmp = bmpFile 54 2 2 24 [255, 255, 255, 0, 0, 0, 0, 0]"

text \<open>A header alone that announces \<open>2\<^sup>3\<^sup>1 - 1\<close> by \<open>2\<^sup>3\<^sup>1 - 1\<close> pixels of 32 bits.\<close>

definition overflowBmp :: "byte list" where
  "overflowBmp = bmpFile 54 0x7FFFFFFF 0x7FFFFFFF 32 []"

text \<open>A 3 by 2 image of 4 bits, for the theorem on bit depth 4.\<close>

definition fourBitBmp :: "byte list" where
  "fourBitBmp = bmpFile 54 3 2 4 [0xF0, 0, 0, 0, 0x81, 0, 0, 0]"

text \<open>A pixel with \<open>B = 10\<close>, \<open>G = 200\<close>, \<open>R = 100\<close>, of luminance 148.\<close>

definition colourBmp :: "byte list" where
  "colourBmp = bmpFile 54 1 1 24 [10, 200, 100, 0]"

section \<open>The source registry (server.go)\<close>

subsection \<open>Services and the world around them\<close>

text \<open>
  A \<^verbatim>\<open>*ERC721Service\<close> is a pointer: two pointers are the same source exactly when
  they are equal. Pointers are numbered in the order \<^verbatim>\<open>NewERC721Service\<close> allocates
  them. No stored pointer is \<^verbatim>\<open>nil\<close>: every one comes from a successful
  \<^verbatim>\<open>NewERC721Service\<close>, whose \<^verbatim>\<open>client\<close> field is set, so the \<^verbatim>\<open>nil\<close> tests of the
  two \<^verbatim>\<open>Close\<close> methods always pass and are not modelled.
\<close>

type_synonym service = nat

record RPCConfig =
  RPCURL :: string
  ContractAddress :: string

record Config =
  RPCConfigs :: "int \<rightharpoonup> RPCConfig"
  AddressPort :: string

text \<open>\<^verbatim>\<open>Server\<close>: the map from chain identifier to service and the configuration; the
  lock \<^verbatim>\<open>mu\<close> has no counterpart in this sequential model.\<close>

record Server =
  services :: "int \<rightharpoonup> service"
  config :: Config

text \<open>
  What the program does to the outside: the next pointer to allocate, the services whose
  chain identifier has been queried, and the services whose client has been closed, both
  in call order.
\<close>

record world =
  nextService :: nat
  probeLog :: "service list"
  closeLog :: "service list"

text \<open>
  What the outside answers: whether \<^verbatim>\<open>ethclient.Dial\<close> reaches a URL, and what the
  \<open>n\<close>-th chain-identifier query of the run, put to a service, returns (\<open>None\<close> when
  the call fails; the answers may change from one query to the next).
\<close>

record net =
  dialOK :: "string \<Rightarrow> bool"
  chainIDOf :: "nat \<Rightarrow> service \<Rightarrow> int option"

datatype server_error =
    ServiceCreationFailed int
  | ChainIDQueryFailed
  | NoRPCServer int

text \<open>\<^verbatim>\<open>(*big.Int).Int64\<close> of the standard library: the low 64 bits of the magnitude
  as an \<^verbatim>\<open>int64\<close>, negated for a negative number.\<close>

definition Int64 :: "int \<Rightarrow> int" where
  "Int64 x = (if x < 0 then neg64 (wrap64 (\<bar>x\<bar> mod 2 ^ 64)) else wrap64 (\<bar>x\<bar> mod 2 ^ 64))"

text \<open>erc721.go, lines 46-62: the ABI is a constant that parses, so only the dial can
  fail.\<close>

definition NewERC721Service ::
  "net \<Rightarrow> string \<Rightarrow> string \<Rightarrow> world \<Rightarrow> service option \<times> world" where
  "NewERC721Service nt rpcURL contractAddress w =
     (if dialOK nt rpcURL then (Some (nextService w), w\<lparr>nextService := Suc (nextService w)\<rparr>)
      else (None, w))"

text \<open>erc721.go, lines 65-71.\<close>

definition GetChainID :: "net \<Rightarrow> service \<Rightarrow> world \<Rightarrow> int option \<times> world" where
  "GetChainID nt s w =
     (chainIDOf nt (length (probeLog w)) s, w\<lparr>probeLog := probeLog w @ [s]\<rparr>)"

text \<open>erc721.go, lines 192-196.\<close>

definition ServiceClose :: "service \<Rightarrow> world \<Rightarrow> world" where
  "ServiceClose s w = w\<lparr>closeLog := closeLog w @ [s]\<rparr>"

text \<open>
  \<^verbatim>\<open>for k, v := range m\<close> visits every entry of a Go map once, in an order the run-time
  chooses anew each time. The order is a parameter of every function that ranges over a
  map: a list \<open>ord\<close> of the keys; the theorems assume it lists each key of the map once.
\<close>

definition entries :: "('k \<rightharpoonup> 'v) \<Rightarrow> 'k list \<Rightarrow> ('k \<times> 'v) list" where
  "entries m ord = List.map_filter (\<lambda>k. map_option (Pair k) (m k)) ord"

subsection \<open>Initialization\<close>

text \<open>Lines 23-42: the loop of \<^verbatim>\<open>NewServer\<close> over the configured entries.\<close>

fun newServerLoop ::
  "net \<Rightarrow> (int \<times> RPCConfig) list \<Rightarrow> (int \<rightharpoonup> service) \<Rightarrow> world \<Rightarrow>
     (server_error + (int \<rightharpoonup> service)) \<times> world" where
  "newServerLoop nt [] svcs w = (Inr svcs, w)"
| "newServerLoop nt ((chainID, rpcConfig) # rest) svcs w =
     (case NewERC721Service nt (RPCURL rpcConfig) (ContractAddress rpcConfig) w of
        (None, w1) \<Rightarrow> (Inl (ServiceCreationFailed chainID), w1)
      | (Some service, w1) \<Rightarrow>
          (if chainID = 0 then
             (case GetChainID nt service w1 of
                (None, w2) \<Rightarrow> (Inl ChainIDQueryFailed, w2)
              | (Some actualChainID, w2) \<Rightarrow>
                  newServerLoop nt rest (svcs(Int64 actualChainID \<mapsto> service)) w2)
           else newServerLoop nt rest (svcs(chainID \<mapsto> service)) w1))"

text \<open>Lines 19-48.\<close>

definition NewServer :: "net \<Rightarrow> int list \<Rightarrow> Config \<Rightarrow> world \<Rightarrow> (server_error + Server) \<times> world"
  where
  "NewServer nt ord cfg w =
     (case newServerLoop nt (entries (RPCConfigs cfg) ord) Map.empty w of
        (Inl e, w') \<Rightarrow> (Inl e, w')
      | (Inr svcs, w') \<Rightarrow> (Inr \<lparr>services = svcs, config = cfg\<rparr>, w'))"

subsection \<open>Resolution\<close>

text \<open>Lines 71-84: the scan over the registered services. A query that fails is logged
  and the scan goes on.\<close>

fun scanServices ::
  "net \<Rightarrow> int \<Rightarrow> (int \<times> service) list \<Rightarrow> world \<Rightarrow> service option \<times> world" where
  "scanServices nt chainID [] w = (None, w)"
| "scanServices nt chainID ((existingChainID, existingService) # rest) w =
     (case GetChainID nt existingService w of
        (None, w1) \<Rightarrow> scanServices nt chainID rest w1
      | (Some serviceChainID, w1) \<Rightarrow>
          (if Int64 serviceChainID = chainID then (Some existingService, w1)
           else scanServices nt chainID rest w1))"

text \<open>
  Lines 52-87. The map is looked up under the read lock and, after a miss, once more
  under the write lock; with one caller at a time the second lookup sees what the first
  saw.
\<close>

definition getServiceForChainID ::
  "net \<Rightarrow> int list \<Rightarrow> Server \<Rightarrow> world \<Rightarrow> int \<Rightarrow> (server_error + service) \<times> Server \<times> world"
  where
  "getServiceForChainID nt ord s w chainID =
     (case services s chainID of
        Some service \<Rightarrow> (Inr service, s, w)
      | None \<Rightarrow>
          (case services s chainID of
             Some service \<Rightarrow> (Inr service, s, w)
           | None \<Rightarrow>
               (case scanServices nt chainID (entries (services s) ord) w of
                  (Some existingService, w') \<Rightarrow>
                    (Inr existingService,
                     s\<lparr>services := (services s)(chainID \<mapsto> existingService)\<rparr>, w')
                | (None, w') \<Rightarrow> (Inl (NoRPCServer chainID), s, w'))))"

subsection \<open>Teardown\<close>

text \<open>Lines 188-193: one \<^verbatim>\<open>service.Close()\<close> for each entry of the map.\<close>

fun closeLoop :: "(int \<times> service) list \<Rightarrow> world \<Rightarrow> world" where
  "closeLoop [] w = w"
| "closeLoop ((chainID, service) # rest) w = closeLoop rest (ServiceClose service w)"

text \<open>Lines 184-194.\<close>

definition Close :: "int list \<Rightarrow> Server \<Rightarrow> world \<Rightarrow> world" where
  "Close ord s w = closeLoop (entries (services s) ord) w"

section \<open>Chain identifiers from the caller (config.go)\<close>

text \<open>
  \<^verbatim>\<open>strconv.ParseInt(s, 10, 64)\<close> of the standard library, as its source has it: an
  optional sign, then \<^verbatim>\<open>ParseUint\<close> on the rest, which takes decimal digits only (an
  underscore is a digit separator for base 0 alone) and reports a range error as soon as
  the number passes \<open>2 ^ 64 - 1\<close>; then the range of \<^verbatim>\<open>int64\<close> is checked.
\<close>

datatype num_error = ErrSyntax | ErrRange

definition isDigit :: "char \<Rightarrow> bool" where
  "isDigit c \<longleftrightarrow> c \<in> set ''0123456789''"

definition digitVal :: "char \<Rightarrow> nat" where
  "digitVal c = of_char c - 48"

definition maxUint64 :: nat where
  "maxUint64 = 2 ^ 64 - 1"

fun parseUintLoop :: "nat \<Rightarrow> string \<Rightarrow> num_error + nat" where
  "parseUintLoop n [] = Inr n"
| "parseUintLoop n (c # cs) =
     (if \<not> isDigit c then Inl ErrSyntax
      else if n \<ge> maxUint64 div 10 + 1 then Inl ErrRange
      else if n * 10 + digitVal c > maxUint64 then Inl ErrRange
      else parseUintLoop (n * 10 + digitVal c) cs)"

definition ParseUint :: "string \<Rightarrow> num_error + nat" where
  "ParseUint s = (if s = [] then Inl ErrSyntax else parseUintLoop 0 s)"

definition ParseInt :: "string \<Rightarrow> num_error + int" where
  "ParseInt s =
     (if s = [] then Inl ErrSyntax
      else
        (let neg = (hd s = CHR ''-'');
             s1 = (if hd s = CHR ''+'' \<or> hd s = CHR ''-'' then tl s else s)
         in case ParseUint s1 of
              Inl ErrSyntax \<Rightarrow> Inl ErrSyntax
            | Inl ErrRange \<Rightarrow> Inl ErrRange
            | Inr un \<Rightarrow>
                (if \<not> neg \<and> un \<ge> 2 ^ 63 then Inl ErrRange
                 else if neg \<and> un > 2 ^ 63 then Inl ErrRange
                 else Inr (if neg then - int un else int un))))"

text \<open>config.go, \<^verbatim>\<open>ParseChainID\<close>: any error of \<^verbatim>\<open>ParseInt\<close> is wrapped and
  returned.\<close>

datatype config_error = InvalidChainID num_error

definition ParseChainID :: "string \<Rightarrow> config_error + int" where
  "ParseChainID chainIDStr =
     (case ParseInt chainIDStr of
        Inl err \<Rightarrow> Inl (InvalidChainID err)
      | Inr chainID \<Rightarrow> Inr chainID)"

text \<open>The number a string of decimal digits denotes.\<close>

definition decimal :: "string \<Rightarrow> nat" where
  "decimal ds = foldl (\<lambda>n c. n * 10 + digitVal c) 0 ds"

text \<open>Whether the \<open>n\<close>-th query of the run, put to service \<open>s\<close>, reports \<open>chainID\<close>,
  as line 78 compares it.\<close>

definition answers :: "net \<Rightarrow> nat \<Rightarrow> service \<Rightarrow> int \<Rightarrow> bool" where
  "answers nt n s chainID =
     (case chainIDOf nt n s of None \<Rightarrow> False | Some a \<Rightarrow> Int64 a = chainID)"

text \<open>A run for the teardown: every dial succeeds and every source reports chain 7;
  one source is configured, under key 5.\<close>

definition demoNet :: net where
  "demoNet = \<lparr>dialOK = (\<lambda>url. True), chainIDOf = (\<lambda>n s. Some 7)\<rparr>"

definition demoConfig :: Config where
  "demoConfig =
     \<lparr>RPCConfigs = [5 \<mapsto> \<lparr>RPCURL = ''http://node'', ContractAddress = ''0xabc''\<rparr>],
      AddressPort = '':8080''\<rparr>"

definition world0 :: world where
  "world0 = \<lparr>nextService = 0, probeLog = [], closeLog = []\<rparr>"

text \<open>A registry of two sources: the one under key 1 does not answer, the one under
  key 5 reports chain 7.\<close>

definition silentNet :: net where
  "silentNet = \<lparr>dialOK = (\<lambda>url. True), chainIDOf = (\<lambda>n s. if s = 1 then Some 7 else None)\<rparr>"

definition twoSources :: Server where
  "twoSources = \<lparr>services = [1 \<mapsto> 0, 5 \<mapsto> 1], config = demoConfig\<rparr>"

text \<open>The legacy configuration, with the sentinel entry alone, and a configuration in
  which the sentinel entry stands beside an entry for chain 1; and a network in which
  every source reports chain 1.\<close>

definition legacyConfig :: Config where
  "legacyConfig =
     \<lparr>RPCConfigs = [0 \<mapsto> \<lparr>RPCURL = ''http://node'', ContractAddress = ''0xabc''\<rparr>],
      AddressPort = '':8080''\<rparr>"

definition collideConfig :: Config where
  "collideConfig =
     \<lparr>RPCConfigs = [0 \<mapsto> \<lparr>RPCURL = ''http://a'', ContractAddress = ''0xabc''\<rparr>,
                    1 \<mapsto> \<lparr>RPCURL = ''http://b'', ContractAddress = ''0xdef''\<rparr>],
      AddressPort = '':8080''\<rparr>"

definition chainOneNet :: net where
  "chainOneNet = \<lparr>dialOK = (\<lambda>url. True), chainIDOf = (\<lambda>n s. Some 1)\<rparr>"

text \<open>
  The row stride of a buffer, the bytes of its stored row \<open>y\<close>, and two buffers that are
  identical except for the sign of the height (bytes 22 to 25), the first bottom-up with
  height \<open>+N\<close>, the second top-down with height \<open>-N\<close>, that hold their \<open>N\<close> rows in
  mutually reversed order.
\<close>

abbreviation imgRowSize :: "byte list \<Rightarrow> int" where
  "imgRowSize b \<equiv> rowSizeOf (imgWidth b) (imgBpp b)"

definition rowBytes :: "byte list \<Rightarrow> int \<Rightarrow> byte list" where
  "rowBytes b y = take (nat (imgRowSize b)) (drop (nat (imgStart b + y * imgRowSize b)) b)"

definition mirrored :: "byte list \<Rightarrow> byte list \<Rightarrow> bool" where
  "mirrored A B \<longleftrightarrow>
     54 \<le> length A \<and> length B = length A \<and>
     (\<forall>i<54. i < 22 \<or> 26 \<le> i \<longrightarrow> B ! i = A ! i) \<and>
     0 < sint (Height (parseInfoHeader A)) \<and>
     sint (Height (parseInfoHeader B)) = - sint (Height (parseInfoHeader A)) \<and>
     imgStart A + imgRowSize A * imgHeight A \<le> len A \<and>
     (\<forall>y\<in>set [0..imgHeight A - 1]. rowBytes B y = rowBytes A (imgHeight A - 1 - y))"

text \<open>An 8 by 2 image of 1 bit, bottom-up, and the same image top-down.\<close>

definition upBmp :: "byte list" where
  "upBmp = bmpFile 54 8 2 1 [0xF0, 0, 0, 0, 0x81, 0, 0, 0]"

definition downBmp :: "byte list" where
  "downBmp = bmpFile 54 8 (- 2) 1 [0x81, 0, 0, 0, 0xF0, 0, 0, 0]"

section \<open>Properties of the bitmap renderer\<close>

lemmas bmpFile_simps =
  bmpFile_def putUint32_def putUint16_def parseHeader_def parseInfoHeader_def
  slice_def Uint16_def Uint32_def

subsection \<open>Structural validation\<close>

text \<open>The magic is the two bytes \<open>B\<close> and \<open>M\<close>.\<close>

lemma Uint16_lo: "ucast (Uint16 b) = b ! 0"
  by (rule bit_word_eqI) (auto simp add: Uint16_def bit_simps)

lemma Uint16_hi: "ucast (drop_bit 8 (Uint16 b)) = b ! 1"
  by (rule bit_word_eqI) (auto simp add: Uint16_def bit_simps dest: bit_imp_le_length)

lemma Uint16_eq_iff: "Uint16 b = Uint16 b' \<longleftrightarrow> b ! 0 = b' ! 0 \<and> b ! 1 = b' ! 1"
proof
  assume "Uint16 b = Uint16 b'"
  then show "b ! 0 = b' ! 0 \<and> b ! 1 = b' ! 1"
    by (metis Uint16_lo Uint16_hi)
next
  assume "b ! 0 = b' ! 0 \<and> b ! 1 = b' ! 1"
  then show "Uint16 b = Uint16 b'"
    by (simp add: Uint16_def)
qed

lemma Signature_BM:
  assumes "2 \<le> length bmpData"
  shows "Signature (parseHeader bmpData) = 0x4D42 \<longleftrightarrow> bmpData ! 0 = 0x42 \<and> bmpData ! 1 = 0x4D"
proof -
  have "Uint16 [0x42, 0x4D] = 0x4D42"
    by (simp add: Uint16_def)
  with assms show ?thesis
    using Uint16_eq_iff [of "slice bmpData 0 2" "[0x42, 0x4D]"]
    by (simp add: parseHeader_def slice_def)
qed

text \<open>
  Claim C6. Structural validation fails with the corresponding error and no rendered
  output: a buffer shorter than 54 bytes fails as \<open>TooShort\<close>; a buffer of at least 54
  bytes whose first two bytes, read as a little-endian 16-bit value, differ from the
  magic \<open>0x4D42\<close> fails as \<open>BadSignature\<close>; a buffer passing both whose declared bit
  depth is not one of 1, 4, 8, 24, 32 fails as \<open>UnsupportedDepth\<close>.
\<close>

theorem decode_structural_errors:
  "(length bmpData < 54 \<longrightarrow> decodeBMPData bmpData c0 c1 c2 c3 c4 = Some (Inl TooShort)) \<and>
   (54 \<le> length bmpData \<and> Signature (parseHeader bmpData) \<noteq> 0x4D42 \<longrightarrow>
      decodeBMPData bmpData c0 c1 c2 c3 c4 = Some (Inl BadSignature)) \<and>
   (54 \<le> length bmpData \<and> Signature (parseHeader bmpData) = 0x4D42 \<and>
    BitsPerPixel (parseInfoHeader bmpData) \<notin> {1, 4, 8, 24, 32} \<longrightarrow>
      decodeBMPData bmpData c0 c1 c2 c3 c4
        = Some (Inl (UnsupportedDepth (BitsPerPixel (parseInfoHeader bmpData)))))"
  by (simp add: decodeBMPData_def len_def Let_def)

theorem decode_structural_errors_witness:
  "length (replicate 53 (0::byte)) < 54 \<and>
   decodeBMPData (replicate 53 0) ''0'' ''1'' ''2'' ''3'' ''4'' = Some (Inl TooShort) \<and>
   54 \<le> length (0x42 # 0x4E # replicate 52 (0::byte)) \<and>
   Signature (parseHeader (0x42 # 0x4E # replicate 52 0)) \<noteq> 0x4D42 \<and>
   decodeBMPData (0x42 # 0x4E # replicate 52 0) ''0'' ''1'' ''2'' ''3'' ''4''
     = Some (Inl BadSignature) \<and>
   54 \<le> length (bmpFile 54 1 1 16 []) \<and>
   Signature (parseHeader (bmpFile 54 1 1 16 [])) = 0x4D42 \<and>
   BitsPerPixel (parseInfoHeader (bmpFile 54 1 1 16 [])) \<notin> {1, 4, 8, 24, 32} \<and>
   decodeBMPData (bmpFile 54 1 1 16 []) ''0'' ''1'' ''2'' ''3'' ''4''
     = Some (Inl (UnsupportedDepth 16))"
  using decode_structural_errors [of "replicate 53 0" "''0''" "''1''" "''2''" "''3''" "''4''"]
    decode_structural_errors [of "0x42 # 0x4E # replicate 52 0" "''0''" "''1''" "''2''" "''3''" "''4''"]
    decode_structural_errors [of "bmpFile 54 1 1 16 []" "''0''" "''1''" "''2''" "''3''" "''4''"]
  by (simp add: bmpFile_simps)

subsection \<open>Arithmetic without wrap-around\<close>

lemma wrap64_id: "- (2 ^ 63) \<le> i \<Longrightarrow> i < 2 ^ 63 \<Longrightarrow> wrap64 i = i"
  by (simp add: wrap64_def)

lemma sint32_bounds: "- 2147483648 \<le> sint (w :: 32 word)" "sint (w :: 32 word) < 2147483648"
  using sint_ge [of w] sint_lt [of w] by simp_all

lemma uint16_bounds: "0 \<le> uint (w :: 16 word)" "uint (w :: 16 word) < 65536"
  using uint_lt2p [of w] by simp_all

lemma uint32_bounds: "0 \<le> uint (w :: 32 word)" "uint (w :: 32 word) < 4294967296"
  using uint_lt2p [of w] by simp_all

lemma heightOf_abs: "heightOf ih = \<bar>sint (Height ih)\<bar>"
  using sint32_bounds [of "Height ih"]
  by (simp add: heightOf_def isTopDownOf_def neg64_def wrap64_id)

lemma heightOf_bounds: "0 \<le> heightOf ih" "heightOf ih \<le> 2147483648"
  using sint32_bounds [of "Height ih"] by (simp_all add: heightOf_abs)

lemma sdiv_nonneg: "0 \<le> a \<Longrightarrow> 0 < b \<Longrightarrow> a sdiv b = a div (b::int)"
  by (simp add: signed_divide_int_def sgn_if)

lemma sdiv_neg: "a < 0 \<Longrightarrow> 0 < b \<Longrightarrow> a sdiv b = - ((- a) div (b::int))"
  by (simp add: signed_divide_int_def sgn_if)

lemma sdiv32_bounds: "- \<bar>a\<bar> \<le> a sdiv 32" "a sdiv 32 \<le> \<bar>a::int\<bar>"
  by (cases "0 \<le> a"; simp add: sdiv_nonneg sdiv_neg; linarith)+

lemma width_bpp_bound:
  assumes "- 2147483648 \<le> w" "w < 2147483648"
  shows "\<bar>w * uint (bpp :: 16 word)\<bar> \<le> 140737488355328"
proof -
  have "\<bar>w\<bar> * \<bar>uint bpp\<bar> \<le> 2147483648 * 65536"
    using assms uint16_bounds [of bpp] by (intro mult_mono) simp_all
  then show ?thesis by (simp add: abs_mult)
qed

lemma rowSizeOf_exact:
  assumes "- 2147483648 \<le> w" "w < 2147483648"
  shows "rowSizeOf w bpp = ((w * uint bpp + 31) sdiv 32) * 4"
proof -
  let ?p = "w * uint bpp"
  have p: "\<bar>?p\<bar> \<le> 140737488355328"
    using assms by (rule width_bpp_bound)
  then have 1: "mul64 w (uint bpp) = ?p"
    by (simp add: mul64_def wrap64_id)
  from p have 2: "add64 ?p 31 = ?p + 31"
    by (simp add: add64_def wrap64_id)
  have "\<bar>(?p + 31) sdiv 32\<bar> \<le> 140737488355328 + 31"
    using p sdiv32_bounds [of "?p + 31"] by linarith
  then have 3: "mul64 ((?p + 31) sdiv 32) 4 = ((?p + 31) sdiv 32) * 4"
    by (simp add: mul64_def wrap64_id)
  show ?thesis
    by (simp add: rowSizeOf_def 1 2 3)
qed

lemma rowSizeOf_bounds:
  assumes "- 2147483648 \<le> w" "w < 2147483648"
  shows "\<bar>rowSizeOf w bpp\<bar> \<le> 562949953421440"
proof -
  have "\<bar>(w * uint bpp + 31) sdiv 32\<bar> \<le> 140737488355328 + 31"
    using width_bpp_bound [OF assms, of bpp] sdiv32_bounds [of "w * uint bpp + 31"] by linarith
  then show ?thesis
    by (simp add: rowSizeOf_exact [OF assms])
qed

lemma ceil32: "\<lceil>real_of_int a / 32\<rceil> = (a + 31) div 32"
  by linarith

lemma rowSizeOf_ceiling:
  assumes "0 \<le> w" "w < 2147483648"
  shows "rowSizeOf w bpp = \<lceil>real_of_int (w * uint bpp) / 32\<rceil> * 4"
proof -
  have "0 \<le> w * uint bpp"
    using assms by simp
  then have "rowSizeOf w bpp = ((w * uint bpp + 31) div 32) * 4"
    using assms by (simp add: rowSizeOf_exact sdiv_nonneg)
  then show ?thesis
    by (simp only: ceil32)
qed

subsection \<open>The row loop ends, and visits the rows in order\<close>

lemma forY_topdown:
  "0 \<le> k \<Longrightarrow> k \<le> h \<Longrightarrow> h < 2 ^ 63 \<Longrightarrow> forY row k h 1 = Some (seqRows row [k..h - 1])"
proof (induction "nat (h - k)" arbitrary: k)
  case 0
  then have "k = h" by simp
  then show ?case by (simp add: forY.simps)
next
  case (Suc n)
  then have lt: "k < h" by linarith
  with Suc.prems have step: "add64 k 1 = k + 1"
    by (simp add: add64_def wrap64_id)
  have rest: "forY row (k + 1) h 1 = Some (seqRows row [k + 1..h - 1])"
    using Suc lt by (intro Suc.hyps) linarith+
  have upto: "[k..h - 1] = k # [k + 1..h - 1]"
    using lt by (simp add: upto_rec1)
  show ?case
    using lt by (subst forY.simps) (simp add: step rest upto split: sum.splits)
qed

lemma forY_bottomup:
  "- 1 \<le> k \<Longrightarrow> k < 2 ^ 63 \<Longrightarrow> forY row k (- 1) (- 1) = Some (seqRows row (rev [0..k]))"
proof (induction "nat (k + 1)" arbitrary: k)
  case 0
  then have "k = - 1" by simp
  then show ?case by (simp add: forY.simps)
next
  case (Suc n)
  then have ge: "0 \<le> k" by linarith
  with Suc.prems have step: "add64 k (- 1) = k - 1"
    by (simp add: add64_def wrap64_id)
  have rest: "forY row (k - 1) (- 1) (- 1) = Some (seqRows row (rev [0..k - 1]))"
    using Suc ge by (intro Suc.hyps) linarith+
  have upto: "rev [0..k] = k # rev [0..k - 1]"
    using ge by (simp add: upto_rec2)
  show ?case
    using ge by (subst forY.simps) (simp add: step rest upto split: sum.splits)
qed

lemma forY_rowOrder:
  assumes "0 \<le> h" "h \<le> 2147483648"
  shows "forY row (startY td h) (endY td h) (stepY td) = Some (seqRows row (rowOrder td h))"
proof (cases td)
  case True
  then show ?thesis
    using assms forY_topdown [of 0 h row]
    by (simp add: startY_def endY_def stepY_def rowOrder_def)
next
  case False
  have "sub64 h 1 = h - 1"
    using assms by (simp add: sub64_def wrap64_id)
  with False show ?thesis
    using assms forY_bottomup [of "h - 1" row]
    by (simp add: startY_def endY_def stepY_def rowOrder_def)
qed

lemma decode_rows:
  assumes "54 \<le> length bmpData" "Signature (parseHeader bmpData) = 0x4D42"
    and "BitsPerPixel (parseInfoHeader bmpData) \<in> {1, 4, 8, 24, 32}"
    and "\<not> add64 (uint (DataOffset (parseHeader bmpData)))
             (mul64 (rowSizeOf (sint (Width (parseInfoHeader bmpData)))
                       (BitsPerPixel (parseInfoHeader bmpData)))
                (heightOf (parseInfoHeader bmpData))) > len bmpData"
  shows "decodeBMPData bmpData c0 c1 c2 c3 c4 =
     Some (case seqRows
                  (renderRow (cellOf bmpData c0 c1 c2 c3 c4)
                     (uint (DataOffset (parseHeader bmpData)))
                     (rowSizeOf (sint (Width (parseInfoHeader bmpData)))
                        (BitsPerPixel (parseInfoHeader bmpData)))
                     (sint (Width (parseInfoHeader bmpData))))
                  (rowOrder (isTopDownOf (parseInfoHeader bmpData))
                     (heightOf (parseInfoHeader bmpData))) of
             Inl e \<Rightarrow> Inl e
           | Inr rows \<Rightarrow>
               Inr (heading (sint (Width (parseInfoHeader bmpData)))
                      (heightOf (parseInfoHeader bmpData))
                      (BitsPerPixel (parseInfoHeader bmpData)) @ rows))"
proof -
  have loop: "forY row (startY (isTopDownOf (parseInfoHeader bmpData)) (heightOf (parseInfoHeader bmpData)))
       (endY (isTopDownOf (parseInfoHeader bmpData)) (heightOf (parseInfoHeader bmpData)))
       (stepY (isTopDownOf (parseInfoHeader bmpData)))
     = Some (seqRows row (rowOrder (isTopDownOf (parseInfoHeader bmpData)) (heightOf (parseInfoHeader bmpData))))"
    for row
    by (rule forY_rowOrder) (rule heightOf_bounds)+
  show ?thesis
    using assms
    by (auto simp add: decodeBMPData_def Let_def len_def loop cellOf_def)
qed

subsection \<open>The only failure past the checks is an index panic\<close>

lemma index_error: "index b i = Inl e \<Longrightarrow> e = IndexOutOfRange"
  by (simp add: index_def split: if_splits)

lemma cell1_error: "cell1 b c0 c1 rowOffset x = Inl e \<Longrightarrow> e = IndexOutOfRange"
  by (auto simp add: cell1_def Let_def split: if_splits sum.splits dest: index_error)

lemma cellN_error: "cellN b bpp n c0 c1 c2 c3 c4 rowOffset x = Inl e \<Longrightarrow> e = IndexOutOfRange"
  by (auto simp add: cellN_def Let_def split: if_splits sum.splits dest: index_error)

lemma cellOf_error: "cellOf b c0 c1 c2 c3 c4 rowOffset x = Inl e \<Longrightarrow> e = IndexOutOfRange"
  by (auto simp add: cellOf_def Let_def split: if_splits dest: cell1_error cellN_error)

lemma forX_error:
  "(\<And>x e. cell x = Inl e \<Longrightarrow> e = IndexOutOfRange) \<Longrightarrow> forX cell x w = Inl e
     \<Longrightarrow> e = IndexOutOfRange"
proof (induction cell x w rule: forX.induct)
  case (1 cell x width)
  note eq = "1.prems"(2) [unfolded forX.simps [of cell x width]]
  show ?case
  proof (cases "x < width")
    case False
    with eq show ?thesis by simp
  next
    case True
    show ?thesis
    proof (cases "cell x")
      case (Inl e')
      with True eq have "e' = e" by simp
      with Inl "1.prems"(1) show ?thesis by simp
    next
      case (Inr s)
      with True eq have "forX cell (x + 1) width = Inl e"
        by (simp split: sum.splits)
      with "1.IH" [OF True Inr "1.prems"(1)] show ?thesis by simp
    qed
  qed
qed

lemma renderRow_error:
  assumes "renderRow (cellOf b c0 c1 c2 c3 c4) start rowSize w y = Inl e"
  shows "e = IndexOutOfRange"
proof -
  from assms have "forX (cellOf b c0 c1 c2 c3 c4 (add64 start (mul64 y rowSize))) 0 w = Inl e"
    by (simp add: renderRow_def Let_def split: sum.splits)
  then show ?thesis
    by (rule forX_error [rotated]) (rule cellOf_error)
qed

lemma seqRows_error:
  "(\<And>y e. row y = Inl e \<Longrightarrow> e = IndexOutOfRange) \<Longrightarrow> seqRows row ys = Inl e
     \<Longrightarrow> e = IndexOutOfRange"
  by (induction ys arbitrary: e) (auto split: sum.splits)

lemma TruncatedData_iff:
  assumes "54 \<le> length b" "Signature (parseHeader b) = 0x4D42"
    and "imgBpp b \<in> {1, 4, 8, 24, 32}"
  shows "decodeBMPData b c0 c1 c2 c3 c4 = Some (Inl TruncatedData) \<longleftrightarrow>
     len b < add64 (imgStart b) (mul64 (rowSizeOf (imgWidth b) (imgBpp b)) (imgHeight b))"
proof (cases "len b < add64 (imgStart b) (mul64 (rowSizeOf (imgWidth b) (imgBpp b)) (imgHeight b))")
  case True
  with assms show ?thesis
    by (auto simp add: decodeBMPData_def Let_def len_def)
next
  case False
  let ?R = "seqRows
     (renderRow (cellOf b c0 c1 c2 c3 c4) (imgStart b) (rowSizeOf (imgWidth b) (imgBpp b))
        (imgWidth b))
     (rowOrder (isTopDownOf (parseInfoHeader b)) (imgHeight b))"
  have dec: "decodeBMPData b c0 c1 c2 c3 c4 =
     Some (case ?R of Inl e \<Rightarrow> Inl e
           | Inr rows \<Rightarrow> Inr (heading (imgWidth b) (imgHeight b) (imgBpp b) @ rows))"
    by (rule decode_rows [OF assms False])
  have "?R \<noteq> Inl TruncatedData"
  proof
    assume "?R = Inl TruncatedData"
    then have "TruncatedData = IndexOutOfRange"
      by (rule seqRows_error [rotated]) (rule renderRow_error)
    then show False by simp
  qed
  then have "decodeBMPData b c0 c1 c2 c3 c4 \<noteq> Some (Inl TruncatedData)"
    unfolding dec by (cases ?R) simp_all
  with False show ?thesis by simp
qed

lemma add64_mul64_exact:
  assumes "0 \<le> s" "0 \<le> r * h" "s + r * h < 2 ^ 63"
  shows "add64 s (mul64 r h) = s + r * h"
proof -
  have "mul64 r h = r * h"
    using assms by (simp add: mul64_def wrap64_id)
  then show ?thesis
    using assms by (simp add: add64_def wrap64_id)
qed

text \<open>
  Where nothing wraps around the check is exact. For every buffer that passes the header
  checks and whose width is not negative, the row stride the code computes is
  \<open>\<lceil>width * bitDepth / 32\<rceil> * 4\<close>; and when pixel-data offset + stride * height fits a
  64-bit \<^verbatim>\<open>int\<close>, the render fails with \<open>TruncatedData\<close> exactly when the buffer is
  shorter than that sum (the height taken after sign normalization).
\<close>

lemma truncation_exact:
  assumes "54 \<le> length b" and "Signature (parseHeader b) = 0x4D42"
    and "imgBpp b \<in> {1, 4, 8, 24, 32}"
    and "0 \<le> imgWidth b"
  shows "rowSizeOf (imgWidth b) (imgBpp b) = \<lceil>real_of_int (imgWidth b * uint (imgBpp b)) / 32\<rceil> * 4 \<and>
     (imgStart b + \<lceil>real_of_int (imgWidth b * uint (imgBpp b)) / 32\<rceil> * 4 * imgHeight b < 2 ^ 63 \<longrightarrow>
        (decodeBMPData b c0 c1 c2 c3 c4 = Some (Inl TruncatedData) \<longleftrightarrow>
           len b < imgStart b + \<lceil>real_of_int (imgWidth b * uint (imgBpp b)) / 32\<rceil> * 4 * imgHeight b))"
proof -
  define stride where "stride = \<lceil>real_of_int (imgWidth b * uint (imgBpp b)) / 32\<rceil> * 4"
  have stride: "rowSizeOf (imgWidth b) (imgBpp b) = stride"
    unfolding stride_def using assms(4) sint32_bounds(2) by (rule rowSizeOf_ceiling)
  have "0 \<le> imgWidth b * uint (imgBpp b)"
    using assms(4) by simp
  then have "0 \<le> stride"
    unfolding stride_def ceil32 by simp
  then have nonneg: "0 \<le> stride * imgHeight b"
    using heightOf_bounds(1) [of "parseInfoHeader b"] by simp
  have "decodeBMPData b c0 c1 c2 c3 c4 = Some (Inl TruncatedData) \<longleftrightarrow>
      len b < imgStart b + stride * imgHeight b"
    if fits: "imgStart b + stride * imgHeight b < 2 ^ 63"
  proof -
    have "add64 (imgStart b) (mul64 stride (imgHeight b)) = imgStart b + stride * imgHeight b"
      using uint32_bounds(1) nonneg fits by (rule add64_mul64_exact)
    then show ?thesis
      using TruncatedData_iff [OF assms(1-3), of c0 c1 c2 c3 c4] stride by simp
  qed
  then show ?thesis
    unfolding stride_def [symmetric] using stride by simp
qed

subsection \<open>Buffers built by \<open>bmpFile\<close>\<close>

lemma Uint32_putUint32: "Uint32 (putUint32 v) = v"
  apply (rule bit_word_eqI)
  apply (auto simp add: Uint32_def putUint32_def bit_simps)
  subgoal for n by (cases "n < 24") simp_all
  done

lemma Uint16_putUint16: "Uint16 (putUint16 v) = v"
  by (rule bit_word_eqI) (auto simp add: Uint16_def putUint16_def bit_simps)

lemma length_putUint32: "length (putUint32 v) = 4"
  by (simp add: putUint32_def)

lemma length_putUint16: "length (putUint16 v) = 2"
  by (simp add: putUint16_def)

lemma length_bmpFile: "length (bmpFile off w h bpp px) = 54 + length px"
  by (simp add: bmpFile_def length_putUint32 length_putUint16)

lemma parseHeader_bmpFile:
  "parseHeader (bmpFile off w h bpp px) =
     \<lparr>Signature = 0x4D42, FileSize = 0, Reserved = 0, DataOffset = off\<rparr>"
  by (simp add: parseHeader_def bmpFile_def slice_def length_putUint32 length_putUint16
      Uint32_putUint32) (simp add: Uint16_def)

lemma parseInfoHeader_bmpFile:
  "parseInfoHeader (bmpFile off w h bpp px) =
     \<lparr>Size = 40, Width = w, Height = h, ColorPlanes = 1, BitsPerPixel = bpp, Compression = 0,
      ImageSize = 0, HorizontalRes = 0, VerticalRes = 0, ColorsInPalette = 0,
      ImportantColors = 0\<rparr>"
  by (simp add: parseInfoHeader_def bmpFile_def slice_def length_putUint32 length_putUint16
      Uint32_putUint32 Uint16_putUint16)

lemma bmpFile_append: "bmpFile off w h bpp px = bmpFile off w h bpp [] @ px"
  by (simp add: bmpFile_def)

lemma nth_bmpFile: "54 \<le> i \<Longrightarrow> bmpFile off w h bpp px ! i = px ! (i - 54)"
  by (subst bmpFile_append) (simp add: nth_append length_bmpFile)

lemma negWidthBmp_fields:
  "length negWidthBmp = 54" "Signature (parseHeader negWidthBmp) = 0x4D42"
  "imgBpp negWidthBmp = 8" "imgWidth negWidthBmp = - 33" "imgHeight negWidthBmp = 1"
  "imgStart negWidthBmp = 84"
  by (simp_all add: negWidthBmp_def length_bmpFile parseHeader_bmpFile parseInfoHeader_bmpFile
      heightOf_def isTopDownOf_def)

lemma shortBmp_fields:
  "length shortBmp = 62" "Signature (parseHeader shortBmp) = 0x4D42"
  "imgBpp shortBmp = 24" "imgWidth shortBmp = 2" "imgHeight shortBmp = 2"
  "imgStart shortBmp = 54"
  by (simp_all add: shortBmp_def length_bmpFile parseHeader_bmpFile parseInfoHeader_bmpFile
      heightOf_def isTopDownOf_def)

subsection \<open>The truncation check on concrete buffers\<close>

text \<open>A 2 by 2 image of 24 bits with one row of pixel bytes only: the stride is 8 and
  the buffer is 8 bytes short.\<close>

lemma shortBmp_truncated:
  "54 \<le> length shortBmp \<and> Signature (parseHeader shortBmp) = 0x4D42 \<and>
   imgBpp shortBmp \<in> {1, 4, 8, 24, 32} \<and> 0 \<le> imgWidth shortBmp \<and>
   rowSizeOf (imgWidth shortBmp) (imgBpp shortBmp) = 8 \<and>
   len shortBmp < imgStart shortBmp + 8 * imgHeight shortBmp \<and>
   decodeBMPData shortBmp ''0'' ''1'' ''2'' ''3'' ''4'' = Some (Inl TruncatedData)"
proof -
  have stride: "\<lceil>real_of_int (imgWidth shortBmp * uint (imgBpp shortBmp)) / 32\<rceil> * 4 = 8"
    unfolding ceil32 by (simp add: shortBmp_fields)
  have h1: "54 \<le> length shortBmp" and h2: "Signature (parseHeader shortBmp) = 0x4D42"
    and h3: "imgBpp shortBmp \<in> {1, 4, 8, 24, 32}" and h4: "0 \<le> imgWidth shortBmp"
    by (simp_all add: shortBmp_fields)
  have h5: "imgStart shortBmp
      + \<lceil>real_of_int (imgWidth shortBmp * uint (imgBpp shortBmp)) / 32\<rceil> * 4 * imgHeight shortBmp
      < 2 ^ 63"
    unfolding stride by (simp add: shortBmp_fields)
  have short: "len shortBmp < imgStart shortBmp + 8 * imgHeight shortBmp"
    by (simp add: shortBmp_fields len_def)
  from truncation_exact [OF h1 h2 h3 h4, of "''0''" "''1''" "''2''" "''3''" "''4''"] h5
  have "rowSizeOf (imgWidth shortBmp) (imgBpp shortBmp) = 8"
    and "decodeBMPData shortBmp ''0'' ''1'' ''2'' ''3'' ''4'' = Some (Inl TruncatedData)"
    unfolding stride using short by simp_all
  with h1 h2 h3 h4 short show ?thesis by simp
qed

text \<open>
  The width is a signed field that nothing validates, and Go's division truncates towards
  zero: for width \<open>-33\<close> and 8 bits the code's stride is \<open>-28\<close>, not
  \<open>\<lceil>-264 / 32\<rceil> * 4 = -32\<close>, and with data offset 84 and height 1 the 54-byte
  buffer fails as \<open>TruncatedData\<close> (\<open>84 - 28 > 54\<close>) although it is not shorter than
  \<open>84 - 32\<close>.
\<close>

lemma negative_width_stride:
  "54 \<le> length negWidthBmp \<and> Signature (parseHeader negWidthBmp) = 0x4D42 \<and>
   imgBpp negWidthBmp \<in> {1, 4, 8, 24, 32} \<and>
   rowSizeOf (imgWidth negWidthBmp) (imgBpp negWidthBmp)
     \<noteq> \<lceil>real_of_int (imgWidth negWidthBmp * uint (imgBpp negWidthBmp)) / 32\<rceil> * 4 \<and>
   decodeBMPData negWidthBmp ''0'' ''1'' ''2'' ''3'' ''4'' = Some (Inl TruncatedData) \<and>
   \<not> len negWidthBmp < imgStart negWidthBmp
       + \<lceil>real_of_int (imgWidth negWidthBmp * uint (imgBpp negWidthBmp)) / 32\<rceil> * 4
         * imgHeight negWidthBmp"
proof -
  have stride: "\<lceil>real_of_int (imgWidth negWidthBmp * uint (imgBpp negWidthBmp)) / 32\<rceil> * 4 = - 32"
    unfolding ceil32 by (simp add: negWidthBmp_fields)
  have rowSize: "rowSizeOf (imgWidth negWidthBmp) (imgBpp negWidthBmp) = - 28"
    by (simp add: negWidthBmp_fields rowSizeOf_def add64_def mul64_def wrap64_def
        signed_divide_int_def)
  have h1: "54 \<le> length negWidthBmp" and h2: "Signature (parseHeader negWidthBmp) = 0x4D42"
    and h3: "imgBpp negWidthBmp \<in> {1, 4, 8, 24, 32}"
    by (simp_all add: negWidthBmp_fields)
  have "len negWidthBmp
      < add64 (imgStart negWidthBmp)
          (mul64 (rowSizeOf (imgWidth negWidthBmp) (imgBpp negWidthBmp)) (imgHeight negWidthBmp))"
    unfolding rowSize by (simp add: negWidthBmp_fields len_def add64_def mul64_def wrap64_def)
  then have trunc: "decodeBMPData negWidthBmp ''0'' ''1'' ''2'' ''3'' ''4'' = Some (Inl TruncatedData)"
    by (simp add: TruncatedData_iff [OF h1 h2 h3])
  have "\<not> len negWidthBmp < imgStart negWidthBmp
       + \<lceil>real_of_int (imgWidth negWidthBmp * uint (imgBpp negWidthBmp)) / 32\<rceil> * 4
         * imgHeight negWidthBmp"
    unfolding stride by (simp add: negWidthBmp_fields len_def)
  with h1 h2 h3 trunc show ?thesis
    unfolding stride rowSize by simp
qed

subsection \<open>The truncation check defeated by wrap-around\<close>

lemma overflowBmp_fields:
  "length overflowBmp = 54" "Signature (parseHeader overflowBmp) = 0x4D42"
  "imgBpp overflowBmp = 32" "imgWidth overflowBmp = 2147483647"
  "imgHeight overflowBmp = 2147483647" "imgStart overflowBmp = 54"
  "isTopDownOf (parseInfoHeader overflowBmp) = False"
  by (simp_all add: overflowBmp_def length_bmpFile parseHeader_bmpFile parseInfoHeader_bmpFile
      heightOf_def isTopDownOf_def)

lemma overflowBmp_rowSize:
  "rowSizeOf (imgWidth overflowBmp) (imgBpp overflowBmp) = 8589934588"
  by (simp add: overflowBmp_fields rowSizeOf_def add64_def mul64_def wrap64_def
      signed_divide_int_def)

text \<open>Line 352: \<open>8589934588 * 2147483647 = 2\<^sup>6\<^sup>4 - 2\<^sup>3\<^sup>4 + 4\<close> wraps to a negative \<^verbatim>\<open>int\<close>.\<close>

lemma overflowBmp_check:
  "add64 (imgStart overflowBmp)
     (mul64 (rowSizeOf (imgWidth overflowBmp) (imgBpp overflowBmp)) (imgHeight overflowBmp))
   = - 17179869126"
  unfolding overflowBmp_rowSize
  by (simp add: overflowBmp_fields add64_def mul64_def wrap64_def)

text \<open>Lines 402-412: the first row visited is \<open>y = height - 1\<close>; its offset wraps too, and
  the first pixel is read at a negative index.\<close>

lemma overflowBmp_first_row:
  "renderRow (cellOf overflowBmp c0 c1 c2 c3 c4) (imgStart overflowBmp)
     (rowSizeOf (imgWidth overflowBmp) (imgBpp overflowBmp)) (imgWidth overflowBmp) 2147483646
   = Inl IndexOutOfRange"
proof -
  have offset: "add64 54 (mul64 2147483646 8589934588) = - 25769803714"
    by (simp add: add64_def mul64_def wrap64_def)
  have cell: "cellOf overflowBmp c0 c1 c2 c3 c4 (- 25769803714) 0 = Inl IndexOutOfRange"
    by (simp add: cellOf_def cellN_def index_def overflowBmp_fields bytesPerPixelOf_def
        add64_def mul64_def wrap64_def len_def signed_divide_int_def)
  have "forX (cellOf overflowBmp c0 c1 c2 c3 c4 (- 25769803714)) 0 2147483647
      = Inl IndexOutOfRange"
    by (subst forX.simps) (simp add: cell)
  then show ?thesis
    unfolding overflowBmp_rowSize
    by (simp add: renderRow_def overflowBmp_fields offset)
qed

lemma overflowBmp_panics:
  "decodeBMPData overflowBmp c0 c1 c2 c3 c4 = Some (Inl IndexOutOfRange)"
proof -
  have h1: "54 \<le> length overflowBmp" and h2: "Signature (parseHeader overflowBmp) = 0x4D42"
    and h3: "imgBpp overflowBmp \<in> {1, 4, 8, 24, 32}"
    by (simp_all add: overflowBmp_fields)
  have h4: "\<not> add64 (imgStart overflowBmp)
       (mul64 (rowSizeOf (imgWidth overflowBmp) (imgBpp overflowBmp)) (imgHeight overflowBmp))
     > len overflowBmp"
    unfolding overflowBmp_check by (simp add: len_def)
  have rows: "rowOrder (isTopDownOf (parseInfoHeader overflowBmp)) (imgHeight overflowBmp)
      = 2147483646 # rev [0..2147483645]"
    by (simp add: rowOrder_def overflowBmp_fields upto_rec2 [of 0 2147483646])
  show ?thesis
    unfolding decode_rows [OF h1 h2 h3 h4] rows
    by (simp add: overflowBmp_first_row)
qed

text \<open>
  Claim C5 says that the row stride is \<open>\<lceil>width * bitDepth / 32\<rceil> * 4\<close> bytes and that a
  buffer shorter than pixel-data offset + stride * height fails with \<open>TruncatedData\<close>.
  The code does not do that on the 54-byte buffer whose header announces width and
  height \<open>2\<^sup>3\<^sup>1 - 1\<close> at 32 bits with data offset 54. The header checks pass, the stride
  is the claimed \<open>8589934588\<close>, and the buffer is far shorter than
  \<open>54 + 8589934588 * 2147483647\<close>; but the product the check of line 352 computes wraps
  around in the 64-bit \<^verbatim>\<open>int\<close>, the sum it compares with the length is
  \<open>-17179869126\<close>, the check passes, and the render ends in an index panic on the first
  pixel it reads instead of \<open>TruncatedData\<close>.
\<close>

theorem truncation_check_overflow:
  "54 \<le> length overflowBmp \<and> Signature (parseHeader overflowBmp) = 0x4D42 \<and>
   imgBpp overflowBmp = 32 \<and> imgWidth overflowBmp = 2147483647 \<and>
   imgHeight overflowBmp = 2147483647 \<and> imgStart overflowBmp = 54 \<and>
   rowSizeOf (imgWidth overflowBmp) (imgBpp overflowBmp)
     = \<lceil>real_of_int (imgWidth overflowBmp * uint (imgBpp overflowBmp)) / 32\<rceil> * 4 \<and>
   len overflowBmp < imgStart overflowBmp
       + \<lceil>real_of_int (imgWidth overflowBmp * uint (imgBpp overflowBmp)) / 32\<rceil> * 4
         * imgHeight overflowBmp \<and>
   add64 (imgStart overflowBmp)
       (mul64 (rowSizeOf (imgWidth overflowBmp) (imgBpp overflowBmp)) (imgHeight overflowBmp))
     = - 17179869126 \<and>
   decodeBMPData overflowBmp ''0'' ''1'' ''2'' ''3'' ''4'' = Some (Inl IndexOutOfRange)"
proof -
  have stride: "\<lceil>real_of_int (imgWidth overflowBmp * uint (imgBpp overflowBmp)) / 32\<rceil> * 4
      = 8589934588"
    unfolding ceil32 by (simp add: overflowBmp_fields)
  have check: "add64 54 (mul64 8589934588 2147483647) = - 17179869126"
    by (simp add: add64_def mul64_def wrap64_def)
  show ?thesis
    unfolding stride overflowBmp_rowSize
    by (simp add: overflowBmp_fields overflowBmp_panics len_def check)
qed

subsection \<open>Bit depth 4\<close>

lemma wrap64_range: "- (2 ^ 63) \<le> wrap64 i" "wrap64 i < 2 ^ 63"
  by (simp_all add: wrap64_def)

lemma wrap64_idem: "wrap64 (wrap64 i) = wrap64 i"
  by (rule wrap64_id) (rule wrap64_range)+

lemma forX_const:
  "(\<And>x. x0 \<le> x \<Longrightarrow> x < w \<Longrightarrow> cell x = Inr s) \<Longrightarrow>
     forX cell x0 w = Inr (concat (replicate (nat (w - x0)) s))"
proof (induction cell x0 w rule: forX.induct)
  case (1 cell x width)
  show ?case
  proof (cases "x < width")
    case False
    then show ?thesis by (subst forX.simps) simp
  next
    case True
    have here: "cell x = Inr s"
      using True by (intro "1.prems") simp_all
    have rest: "forX cell (x + 1) width = Inr (concat (replicate (nat (width - (x + 1))) s))"
      using True here by (intro "1.IH" "1.prems") simp_all
    have "nat (width - x) = Suc (nat (width - (x + 1)))"
      using True by simp
    then show ?thesis
      using True by (subst forX.simps) (simp add: here rest)
  qed
qed

lemma seqRows_const:
  "(\<And>y. y \<in> set ys \<Longrightarrow> row y = Inr s) \<Longrightarrow>
     seqRows row ys = Inr (concat (replicate (length ys) s))"
  by (induction ys) simp_all

lemma set_rowOrder: "set (rowOrder td h) = {0..h - 1}"
  by (simp add: rowOrder_def)

lemma length_rowOrder: "length (rowOrder td h) = nat h"
  by (simp add: rowOrder_def)

lemma rowSizeOf_4:
  assumes "- 2147483648 \<le> w" "w < 2147483648"
  shows "rowSizeOf w 4 = ((w * 4 + 31) sdiv 32) * 4"
  using rowSizeOf_exact [OF assms, of 4] by simp

lemma rowSizeOf_4_pos:
  assumes "0 < w" "w < 2147483648"
  shows "0 \<le> rowSizeOf w 4" "rowSizeOf w 4 \<le> 1073741824"
  using assms by (simp_all add: rowSizeOf_4 sdiv_nonneg)

lemma rowSizeOf_4_abs:
  assumes "- 2147483648 \<le> w" "w < 2147483648"
  shows "\<bar>rowSizeOf w 4\<bar> \<le> 1073741824"
proof (cases "0 \<le> w * 4 + 31")
  case True
  then show ?thesis using assms by (simp add: rowSizeOf_4 sdiv_nonneg)
next
  case False
  then show ?thesis using assms by (simp add: rowSizeOf_4 sdiv_neg)
qed

lemma brightnessChar_128: "brightnessChar c0 c1 c2 c3 c4 128 = c2"
  by (simp add: brightnessChar_def)

lemma bytesPerPixelOf_4: "bytesPerPixelOf 4 = 0"
  by (simp add: bytesPerPixelOf_def signed_divide_int_def)

lemma cellN_4:
  assumes "- (2 ^ 63) \<le> rowOffset" "rowOffset \<le> len b" "rowOffset < 2 ^ 63"
  shows "cellN b 4 0 c0 c1 c2 c3 c4 rowOffset x = Inr c2"
  using assms
  by (simp add: cellN_def Let_def mul64_def add64_def wrap64_id brightnessChar_128)

text \<open>
  Claim C9. For every buffer that declares bit depth 4 and passes all structural checks
  (length, signature, and the truncation check), the render succeeds and every pixel
  cell of every row is \<open>palette[2]\<close>: the per-pixel byte width is \<open>4 / 8 = 0\<close>, no pixel
  byte is read, and the default brightness 128 falls in the bracket from 102.
\<close>

theorem four_bit_renders_palette2:
  assumes "54 \<le> length b" and "Signature (parseHeader b) = 0x4D42" and "imgBpp b = 4"
    and "decodeBMPData b c0 c1 c2 c3 c4 \<noteq> Some (Inl TruncatedData)"
  shows "bytesPerPixelOf (imgBpp b) = 0 \<and>
     decodeBMPData b c0 c1 c2 c3 c4 =
       Some (Inr (heading (imgWidth b) (imgHeight b) 4
                  @ concat (replicate (nat (imgHeight b))
                      (''    '' @ concat (replicate (nat (imgWidth b)) c2) @ newline))))"
proof -
  define w where "w = imgWidth b"
  define h where "h = imgHeight b"
  define s where "s = imgStart b"
  define rs where "rs = rowSizeOf w 4"
  define td where "td = isTopDownOf (parseInfoHeader b)"
  have w: "- 2147483648 \<le> w" "w < 2147483648"
    unfolding w_def by (rule sint32_bounds)+
  have h: "0 \<le> h" "h \<le> 2147483648"
    unfolding h_def by (rule heightOf_bounds)+
  have s: "0 \<le> s" "s < 4294967296"
    unfolding s_def by (rule uint32_bounds)+
  have bpp: "imgBpp b \<in> {1, 4, 8, 24, 32}"
    using assms(3) by simp
  have "\<bar>rs\<bar> * \<bar>h\<bar> \<le> 1073741824 * 2147483648"
    unfolding rs_def using h rowSizeOf_4_abs [OF w] by (intro mult_mono) simp_all
  then have prod: "\<bar>rs * h\<bar> \<le> 2305843009213693952"
    by (simp add: abs_mult)
  then have mul: "mul64 rs h = rs * h"
    by (simp add: mul64_def wrap64_id)
  have add: "add64 s (rs * h) = s + rs * h"
    using prod s by (simp add: add64_def wrap64_id)
  have fits: "s + rs * h \<le> len b"
    using assms(4) TruncatedData_iff [OF assms(1,2) bpp, of c0 c1 c2 c3 c4]
    by (simp add: assms(3) mul add flip: w_def h_def s_def rs_def)
  have nottrunc: "\<not> len b < add64 (imgStart b)
      (mul64 (rowSizeOf (imgWidth b) (imgBpp b)) (imgHeight b))"
    using fits by (simp add: assms(3) mul add flip: w_def h_def s_def rs_def)
  have cell: "cellOf b c0 c1 c2 c3 c4 = cellN b 4 0 c0 c1 c2 c3 c4"
    by (simp add: cellOf_def assms(3) bytesPerPixelOf_4)
  have row: "renderRow (cellN b 4 0 c0 c1 c2 c3 c4) s rs w y
      = Inr (''    '' @ concat (replicate (nat w) c2) @ newline)"
    if y: "y \<in> set (rowOrder td h)" for y
  proof -
    from y have y: "0 \<le> y" "y \<le> h - 1"
      by (simp_all add: set_rowOrder)
    have "forX (cellN b 4 0 c0 c1 c2 c3 c4 (add64 s (mul64 y rs))) 0 w
        = Inr (concat (replicate (nat (w - 0)) c2))"
    proof (rule forX_const)
      fix x :: int
      assume "0 \<le> x" "x < w"
      then have "0 < w" by simp
      then have rs: "0 \<le> rs"
        unfolding rs_def using w by (intro rowSizeOf_4_pos)
      have le: "y * rs \<le> h * rs"
        using y rs by (intro mult_right_mono) simp_all
      have ge: "0 \<le> y * rs"
        using y rs by simp
      have "h * rs \<le> 2305843009213693952"
        using prod by (simp add: mult.commute)
      with le ge s have "add64 s (mul64 y rs) = s + y * rs"
        by (simp add: mul64_def add64_def wrap64_id)
      moreover have "s + y * rs \<le> len b"
        using le fits by (simp add: mult.commute)
      ultimately show "cellN b 4 0 c0 c1 c2 c3 c4 (add64 s (mul64 y rs)) x = Inr c2"
        using wrap64_range [of "s + mul64 y rs"]
        by (intro cellN_4) (simp_all add: add64_def)
    qed
    then show ?thesis
      by (simp add: renderRow_def)
  qed
  have "seqRows (renderRow (cellN b 4 0 c0 c1 c2 c3 c4) s rs w) (rowOrder td h)
      = Inr (concat (replicate (length (rowOrder td h))
               (''    '' @ concat (replicate (nat w) c2) @ newline)))"
    by (rule seqRows_const) (rule row)
  then have "decodeBMPData b c0 c1 c2 c3 c4 =
       Some (Inr (heading w h 4
                  @ concat (replicate (nat h) (''    '' @ concat (replicate (nat w) c2) @ newline))))"
    unfolding decode_rows [OF assms(1,2) bpp nottrunc] cell
    by (simp add: assms(3) length_rowOrder flip: w_def h_def s_def rs_def td_def)
  then show ?thesis
    by (simp add: assms(3) bytesPerPixelOf_4 w_def h_def)
qed

lemma fourBitBmp_fields:
  "length fourBitBmp = 62" "Signature (parseHeader fourBitBmp) = 0x4D42"
  "imgBpp fourBitBmp = 4" "imgWidth fourBitBmp = 3" "imgHeight fourBitBmp = 2"
  "imgStart fourBitBmp = 54"
  by (simp_all add: fourBitBmp_def length_bmpFile parseHeader_bmpFile parseInfoHeader_bmpFile
      heightOf_def isTopDownOf_def)

theorem four_bit_renders_palette2_witness:
  "54 \<le> length fourBitBmp \<and> Signature (parseHeader fourBitBmp) = 0x4D42 \<and>
   imgBpp fourBitBmp = 4 \<and>
   decodeBMPData fourBitBmp ''0'' ''1'' ''2'' ''3'' ''4'' \<noteq> Some (Inl TruncatedData) \<and>
   decodeBMPData fourBitBmp ''0'' ''1'' ''2'' ''3'' ''4'' =
     Some (Inr (heading 3 2 4 @ ''    222'' @ newline @ ''    222'' @ newline))"
proof -
  have h1: "54 \<le> length fourBitBmp" and h2: "Signature (parseHeader fourBitBmp) = 0x4D42"
    and h3: "imgBpp fourBitBmp = 4"
    by (simp_all add: fourBitBmp_fields)
  have "\<not> len fourBitBmp < add64 (imgStart fourBitBmp)
      (mul64 (rowSizeOf (imgWidth fourBitBmp) (imgBpp fourBitBmp)) (imgHeight fourBitBmp))"
    by (simp add: fourBitBmp_fields len_def rowSizeOf_def add64_def mul64_def wrap64_def
        signed_divide_int_def)
  then have h4: "decodeBMPData fourBitBmp ''0'' ''1'' ''2'' ''3'' ''4'' \<noteq> Some (Inl TruncatedData)"
    using TruncatedData_iff [of fourBitBmp] h1 h2 h3 by simp
  from four_bit_renders_palette2 [OF h1 h2 h3 h4]
  have "decodeBMPData fourBitBmp ''0'' ''1'' ''2'' ''3'' ''4'' =
     Some (Inr (heading 3 2 4 @ ''    222'' @ newline @ ''    222'' @ newline))"
    by (simp add: fourBitBmp_fields numeral_2_eq_2 numeral_3_eq_3)
  with h1 h2 h3 h4 show ?thesis by simp
qed

subsection \<open>Luminance and the palette\<close>

lemma uint8_bounds: "0 \<le> uint (w :: byte)" "uint (w :: byte) < 256"
  using uint_lt2p [of w] by simp_all

lemma luminance_exact:
  "uint (luminance r g b) = (299 * uint r + 587 * uint g + 114 * uint b) div 1000"
proof -
  define R G B where "R = uint r" and "G = uint g" and "B = uint b"
  have R: "0 \<le> R" "R < 256" and G: "0 \<le> G" "G < 256" and B: "0 \<le> B" "B < 256"
    unfolding R_def G_def B_def by (rule uint8_bounds)+
  let ?s = "299 * R + 587 * G + 114 * B"
  have s: "0 \<le> ?s" "?s < 256000"
    using R G B by simp_all
  have "mul64 R 299 = 299 * R" "mul64 G 587 = 587 * G" "mul64 B 114 = 114 * B"
    using R G B by (simp_all add: mul64_def wrap64_id)
  moreover have "add64 (299 * R) (587 * G) = 299 * R + 587 * G"
    using R G by (simp add: add64_def wrap64_id)
  moreover have "add64 (299 * R + 587 * G) (114 * B) = ?s"
    using R G B by (simp add: add64_def wrap64_id)
  ultimately have "luminance r g b = word_of_int (?s div 1000)"
    using s by (simp add: luminance_def sdiv_nonneg flip: R_def G_def B_def)
  moreover have "0 \<le> ?s div 1000" "?s div 1000 < 256"
    using s by simp_all
  ultimately show ?thesis
    by (simp add: uint_word_of_int flip: R_def G_def B_def)
qed

lemma brightnessChar_uint:
  "brightnessChar c0 c1 c2 c3 c4 v =
     (if 204 \<le> uint v then c0 else if 153 \<le> uint v then c1 else if 102 \<le> uint v then c2
      else if 51 \<le> uint v then c3 else c4)"
  by (simp add: brightnessChar_def word_le_def)

lemma bytesPerPixelOf_24_32: "bytesPerPixelOf 24 = 3" "bytesPerPixelOf 32 = 4"
  by (simp_all add: bytesPerPixelOf_def signed_divide_int_def)

lemma cellN_colour:
  assumes bpp: "bpp = 24 \<or> bpp = 32"
    and p: "p = add64 rowOffset (mul64 x (bytesPerPixelOf bpp))"
    and bounds: "0 \<le> p" "p + bytesPerPixelOf bpp \<le> len b" "len b < 2 ^ 63"
  shows "cellN b bpp (bytesPerPixelOf bpp) c0 c1 c2 c3 c4 rowOffset x =
     Inr (brightnessChar c0 c1 c2 c3 c4
            (luminance (b ! nat (p + 2)) (b ! nat (p + 1)) (b ! nat p)))"
proof -
  have k: "3 \<le> bytesPerPixelOf bpp" "bytesPerPixelOf bpp \<le> 4" "bpp \<noteq> 8"
    using bpp by (auto simp add: bytesPerPixelOf_24_32)
  with bounds have "add64 p (bytesPerPixelOf bpp) = p + bytesPerPixelOf bpp"
    "add64 p 1 = p + 1" "add64 p 2 = p + 2"
    by (simp_all add: add64_def wrap64_id)
  moreover have "index b p = Inr (b ! nat p)" "index b (p + 1) = Inr (b ! nat (p + 1))"
    "index b (p + 2) = Inr (b ! nat (p + 2))"
    using bounds k by (simp_all add: index_def)
  ultimately show ?thesis
    using bpp bounds k by (simp add: cellN_def Let_def flip: p)
qed

lemma one_pixel_24:
  "decodeBMPData (bmpFile 54 1 1 24 [bl, g, r, 0]) c0 c1 c2 c3 c4 =
     Some (Inr (heading 1 1 24 @ ''    '' @ brightnessChar c0 c1 c2 c3 c4 (luminance r g bl)
                @ newline))"
proof -
  let ?b = "bmpFile 54 1 1 24 [bl, g, r, 0]"
  have fields: "length ?b = 58" "Signature (parseHeader ?b) = 0x4D42" "imgBpp ?b = 24"
    "imgWidth ?b = 1" "imgHeight ?b = 1" "imgStart ?b = 54" "\<not> isTopDownOf (parseInfoHeader ?b)"
    by (simp_all add: length_bmpFile parseHeader_bmpFile parseInfoHeader_bmpFile
        heightOf_def isTopDownOf_def)
  have rs: "rowSizeOf 1 24 = 4"
    by (simp add: rowSizeOf_def add64_def mul64_def wrap64_def signed_divide_int_def)
  have h1: "54 \<le> length ?b" and h3: "imgBpp ?b \<in> {1, 4, 8, 24, 32}"
    by (simp_all add: fields)
  have h4: "\<not> len ?b < add64 (imgStart ?b) (mul64 (rowSizeOf (imgWidth ?b) (imgBpp ?b)) (imgHeight ?b))"
    by (simp add: fields rs len_def add64_def mul64_def wrap64_def)
  have cell: "cellOf ?b c0 c1 c2 c3 c4 = cellN ?b 24 (bytesPerPixelOf 24) c0 c1 c2 c3 c4"
    by (simp add: cellOf_def fields)
  have p: "add64 (add64 54 (mul64 0 4)) (mul64 0 3) = 54"
    by (simp add: add64_def mul64_def wrap64_def)
  have "cellN ?b 24 (bytesPerPixelOf 24) c0 c1 c2 c3 c4 (add64 54 (mul64 0 4)) 0
      = Inr (brightnessChar c0 c1 c2 c3 c4 (luminance (?b ! nat (54 + 2)) (?b ! nat (54 + 1)) (?b ! nat 54)))"
    by (rule cellN_colour) (simp_all add: p bytesPerPixelOf_24_32 len_def fields(1))
  then have c: "cellN ?b 24 (bytesPerPixelOf 24) c0 c1 c2 c3 c4 (add64 54 (mul64 0 4)) 0
      = Inr (brightnessChar c0 c1 c2 c3 c4 (luminance r g bl))"
    by (simp add: nth_bmpFile)
  have "forX (cellN ?b 24 (bytesPerPixelOf 24) c0 c1 c2 c3 c4 (add64 54 (mul64 0 4))) 0 1
      = Inr (brightnessChar c0 c1 c2 c3 c4 (luminance r g bl))"
    by (subst forX.simps, simp add: c, subst forX.simps, simp)
  then have row: "renderRow (cellN ?b 24 (bytesPerPixelOf 24) c0 c1 c2 c3 c4) 54 4 1 0
      = Inr (''    '' @ brightnessChar c0 c1 c2 c3 c4 (luminance r g bl) @ newline)"
    by (simp add: renderRow_def)
  show ?thesis
    unfolding decode_rows [OF h1 fields(2) h3 h4] cell
    by (simp add: fields rs rowOrder_def row)
qed

lemma solid_pixel:
  "uint v = n \<Longrightarrow>
   decodeBMPData (bmpFile 54 1 1 24 [v, v, v, 0]) c0 c1 c2 c3 c4 =
     Some (Inr (heading 1 1 24 @ ''    ''
                @ (if 204 \<le> n then c0 else if 153 \<le> n then c1 else if 102 \<le> n then c2
                   else if 51 \<le> n then c3 else c4) @ newline))"
  by (simp add: one_pixel_24 brightnessChar_uint luminance_exact)

text \<open>
  Claim C4. For every in-bounds pixel of a 24-bit or 32-bit image the renderer reads the
  bytes at the pixel offset as Blue, Green, Red (a fourth byte is not read), takes
  \<open>(299 * R + 587 * G + 114 * B) div 1000\<close>, and maps it with inclusive lower bounds 204,
  153, 102, 51 to \<open>palette[0]\<close> ... \<open>palette[3]\<close>, else \<open>palette[4]\<close>. A 1 by 1 image of 24
  bits with \<open>B = G = R = 255\<close> renders \<open>palette[0]\<close>, with \<open>B = G = R = 0\<close>
  \<open>palette[4]\<close>, with luminance exactly 204 \<open>palette[0]\<close>, and with 203 \<open>palette[1]\<close>.
\<close>

theorem pixel_luminance_palette:
  "((bpp = 24 \<or> bpp = 32) \<and> p = add64 rowOffset (mul64 x (bytesPerPixelOf bpp)) \<and>
    0 \<le> p \<and> p + bytesPerPixelOf bpp \<le> len b \<and> len b < 2 ^ 63 \<longrightarrow>
      cellN b bpp (bytesPerPixelOf bpp) c0 c1 c2 c3 c4 rowOffset x =
        Inr (let B = uint (b ! nat p); G = uint (b ! nat (p + 1)); R = uint (b ! nat (p + 2));
                 l = (299 * R + 587 * G + 114 * B) div 1000
             in if 204 \<le> l then c0 else if 153 \<le> l then c1 else if 102 \<le> l then c2
                else if 51 \<le> l then c3 else c4)) \<and>
   decodeBMPData (bmpFile 54 1 1 24 [255, 255, 255, 0]) c0 c1 c2 c3 c4
     = Some (Inr (heading 1 1 24 @ ''    '' @ c0 @ newline)) \<and>
   decodeBMPData (bmpFile 54 1 1 24 [0, 0, 0, 0]) c0 c1 c2 c3 c4
     = Some (Inr (heading 1 1 24 @ ''    '' @ c4 @ newline)) \<and>
   decodeBMPData (bmpFile 54 1 1 24 [204, 204, 204, 0]) c0 c1 c2 c3 c4
     = Some (Inr (heading 1 1 24 @ ''    '' @ c0 @ newline)) \<and>
   decodeBMPData (bmpFile 54 1 1 24 [203, 203, 203, 0]) c0 c1 c2 c3 c4
     = Some (Inr (heading 1 1 24 @ ''    '' @ c1 @ newline))"
proof (intro conjI impI)
  assume "(bpp = 24 \<or> bpp = 32) \<and> p = add64 rowOffset (mul64 x (bytesPerPixelOf bpp)) \<and>
    0 \<le> p \<and> p + bytesPerPixelOf bpp \<le> len b \<and> len b < 2 ^ 63"
  then have "cellN b bpp (bytesPerPixelOf bpp) c0 c1 c2 c3 c4 rowOffset x =
     Inr (brightnessChar c0 c1 c2 c3 c4
            (luminance (b ! nat (p + 2)) (b ! nat (p + 1)) (b ! nat p)))"
    by (intro cellN_colour) simp_all
  then show "cellN b bpp (bytesPerPixelOf bpp) c0 c1 c2 c3 c4 rowOffset x =
        Inr (let B = uint (b ! nat p); G = uint (b ! nat (p + 1)); R = uint (b ! nat (p + 2));
                 l = (299 * R + 587 * G + 114 * B) div 1000
             in if 204 \<le> l then c0 else if 153 \<le> l then c1 else if 102 \<le> l then c2
                else if 51 \<le> l then c3 else c4)"
    by (simp add: brightnessChar_uint luminance_exact Let_def)
next
  show "decodeBMPData (bmpFile 54 1 1 24 [255, 255, 255, 0]) c0 c1 c2 c3 c4
     = Some (Inr (heading 1 1 24 @ ''    '' @ c0 @ newline))"
    using solid_pixel [of 255 255] by simp
next
  show "decodeBMPData (bmpFile 54 1 1 24 [0, 0, 0, 0]) c0 c1 c2 c3 c4
     = Some (Inr (heading 1 1 24 @ ''    '' @ c4 @ newline))"
    using solid_pixel [of 0 0] by simp
next
  show "decodeBMPData (bmpFile 54 1 1 24 [204, 204, 204, 0]) c0 c1 c2 c3 c4
     = Some (Inr (heading 1 1 24 @ ''    '' @ c0 @ newline))"
    using solid_pixel [of 204 204] by simp
next
  show "decodeBMPData (bmpFile 54 1 1 24 [203, 203, 203, 0]) c0 c1 c2 c3 c4
     = Some (Inr (heading 1 1 24 @ ''    '' @ c1 @ newline))"
    using solid_pixel [of 203 203] by simp
qed

theorem pixel_luminance_palette_witness:
  "((24 :: 16 word) = 24 \<or> (24 :: 16 word) = 32) \<and>
   54 = add64 54 (mul64 0 (bytesPerPixelOf 24)) \<and> (0 :: int) \<le> 54 \<and>
   54 + bytesPerPixelOf 24 \<le> len colourBmp \<and> len colourBmp < 2 ^ 63 \<and>
   cellN colourBmp 24 (bytesPerPixelOf 24) ''0'' ''1'' ''2'' ''3'' ''4'' 54 0 = Inr ''2''"
proof -
  have hyps: "((24 :: 16 word) = 24 \<or> (24 :: 16 word) = 32) \<and>
     54 = add64 54 (mul64 0 (bytesPerPixelOf 24)) \<and> (0 :: int) \<le> 54 \<and>
     54 + bytesPerPixelOf 24 \<le> len colourBmp \<and> len colourBmp < 2 ^ 63"
    by (simp add: bytesPerPixelOf_24_32 add64_def mul64_def wrap64_def len_def colourBmp_def
        length_bmpFile)
  have "cellN colourBmp 24 (bytesPerPixelOf 24) ''0'' ''1'' ''2'' ''3'' ''4'' 54 0 = Inr ''2''"
    using pixel_luminance_palette [of 24 54 54 0 colourBmp "''0''" "''1''" "''2''" "''3''" "''4''",
        THEN conjunct1, THEN mp, OF hyps]
    by (simp add: colourBmp_def nth_bmpFile)
  with hyps show ?thesis by simp
qed

section \<open>Properties of the source registry\<close>

subsection \<open>Ranging over a map\<close>

lemma entries_Nil: "entries m [] = []"
  by (simp add: entries_def map_filter_simps)

lemma entries_Cons:
  "entries m (k # ks) = (case m k of None \<Rightarrow> entries m ks | Some v \<Rightarrow> (k, v) # entries m ks)"
  by (simp add: entries_def map_filter_simps split: option.splits)

lemma set_entries: "set (entries m ord) = {(k, v). k \<in> set ord \<and> m k = Some v}"
  by (induction ord) (auto simp add: entries_Nil entries_Cons split: option.splits)

lemma map_fst_entries: "set ord \<subseteq> dom m \<Longrightarrow> map fst (entries m ord) = ord"
  by (induction ord) (auto simp add: entries_Nil entries_Cons split: option.splits)

lemma ran_entries: "set ord = dom m \<Longrightarrow> snd ` set (entries m ord) = ran m"
  unfolding set_entries ran_def by force

subsection \<open>The scan\<close>

lemma Int64_id:
  assumes "- (2 ^ 63) \<le> x" "x < 2 ^ 63"
  shows "Int64 x = x"
proof (cases "x < 0")
  case False
  with assms show ?thesis
    by (simp add: Int64_def wrap64_id)
next
  case True
  show ?thesis
  proof (cases "x = - (2 ^ 63)")
    case True
    then show ?thesis
      by (simp add: Int64_def neg64_def wrap64_def)
  next
    case False
    with \<open>x < 0\<close> assms have "\<bar>x\<bar> mod 2 ^ 64 = - x" "- x < 2 ^ 63"
      by simp_all
    with \<open>x < 0\<close> assms show ?thesis
      by (simp add: Int64_def neg64_def wrap64_id)
  qed
qed

lemma scanServices_None:
  "scanServices nt chainID es w = (None, w') \<Longrightarrow>
     probeLog w' = probeLog w @ map snd es \<and> nextService w' = nextService w \<and>
     closeLog w' = closeLog w \<and>
     (\<forall>i<length es. \<not> answers nt (length (probeLog w) + i) (snd (es ! i)) chainID)"
proof (induction es arbitrary: w)
  case Nil
  then show ?case by simp
next
  case (Cons e es)
  obtain k s where e: "e = (k, s)" by (cases e)
  let ?w1 = "w\<lparr>probeLog := probeLog w @ [s]\<rparr>"
  from Cons.prems have no: "\<not> answers nt (length (probeLog w)) s chainID"
    and rest: "scanServices nt chainID es ?w1 = (None, w')"
    by (auto simp add: e GetChainID_def answers_def split: option.splits if_splits)
  from Cons.IH [OF rest] show ?case
    using no by (auto simp add: e nth_Cons split: nat.splits)
qed

lemma scanServices_Some:
  "scanServices nt chainID es w = (Some s, w') \<Longrightarrow>
     \<exists>pre k post. es = pre @ (k, s) # post \<and>
       probeLog w' = probeLog w @ map snd pre @ [s] \<and> nextService w' = nextService w \<and>
       closeLog w' = closeLog w \<and>
       (\<forall>i<length pre. \<not> answers nt (length (probeLog w) + i) (snd (pre ! i)) chainID) \<and>
       answers nt (length (probeLog w) + length pre) s chainID"
proof (induction es arbitrary: w)
  case Nil
  then show ?case by simp
next
  case (Cons e es)
  obtain k0 s0 where e: "e = (k0, s0)" by (cases e)
  let ?w1 = "w\<lparr>probeLog := probeLog w @ [s0]\<rparr>"
  show ?case
  proof (cases "answers nt (length (probeLog w)) s0 chainID")
    case True
    with Cons.prems have "s = s0" "w' = ?w1"
      by (auto simp add: e GetChainID_def answers_def split: option.splits if_splits)
    with True show ?thesis
      by (intro exI [of _ "[]"] exI [of _ k0] exI [of _ es]) (simp add: e)
  next
    case False
    with Cons.prems have rest: "scanServices nt chainID es ?w1 = (Some s, w')"
      by (auto simp add: e GetChainID_def answers_def split: option.splits if_splits)
    from Cons.IH [OF rest] obtain pre k post where
      es: "es = pre @ (k, s) # post"
      and log: "probeLog w' = probeLog ?w1 @ map snd pre @ [s]"
      and same: "nextService w' = nextService ?w1" "closeLog w' = closeLog ?w1"
      and skipped: "\<forall>i<length pre. \<not> answers nt (length (probeLog ?w1) + i) (snd (pre ! i)) chainID"
      and hit: "answers nt (length (probeLog ?w1) + length pre) s chainID"
      by blast
    have "e # es = ((k0, s0) # pre) @ (k, s) # post \<and>
       probeLog w' = probeLog w @ map snd ((k0, s0) # pre) @ [s] \<and>
       nextService w' = nextService w \<and> closeLog w' = closeLog w \<and>
       (\<forall>i<length ((k0, s0) # pre).
          \<not> answers nt (length (probeLog w) + i) (snd (((k0, s0) # pre) ! i)) chainID) \<and>
       answers nt (length (probeLog w) + length ((k0, s0) # pre)) s chainID"
      using False skipped hit log same
      by (auto simp add: e es nth_Cons split: nat.splits)
    then show ?thesis by blast
  qed
qed

subsection \<open>Resolution\<close>

text \<open>
  Claim C7. For every (chainID, source) pair present in the registry, resolving chainID
  returns that source and leaves the registry and the world as they were: no source is
  asked for its chain identifier, on the first call or on any later one.
\<close>

theorem resolve_configured:
  assumes "services srv chainID = Some s"
  shows "getServiceForChainID nt ord srv w chainID = (Inr s, srv, w) \<and>
     (case getServiceForChainID nt ord srv w chainID of
        (r1, srv1, w1) \<Rightarrow>
          (case getServiceForChainID nt ord' srv1 w1 chainID of
             (r2, srv2, w2) \<Rightarrow> r2 = Inr s \<and> srv2 = srv \<and> probeLog w2 = probeLog w))"
  using assms by (simp add: getServiceForChainID_def)

theorem resolve_configured_witness:
  "services twoSources 5 = Some 1 \<and>
   getServiceForChainID silentNet [1, 5] twoSources world0 5 = (Inr 1, twoSources, world0) \<and>
   (case getServiceForChainID silentNet [1, 5] twoSources world0 5 of
      (r1, srv1, w1) \<Rightarrow>
        (case getServiceForChainID silentNet [5, 1] srv1 w1 5 of
           (r2, srv2, w2) \<Rightarrow> r2 = Inr 1 \<and> srv2 = twoSources \<and> probeLog w2 = probeLog world0))"
proof -
  have h: "services twoSources 5 = Some 1"
    by (simp add: twoSources_def)
  from resolve_configured [OF h, where nt = silentNet and ord = "[1, 5]" and w = world0
      and ord' = "[5, 1]"] h
  show ?thesis
    by blast
qed

text \<open>
  Claim C2. For a chain identifier with no entry in the map, resolve queries the
  registered sources in the order of the scan, going past those that fail or report
  another identifier. If one reports the requested identifier, it is returned and stored
  under the requested key, the sources after it are not queried, and a second resolve
  returns it with no further query. If none does, every registered source has been
  queried and resolve fails with the error that carries the requested identifier.
\<close>

theorem resolve_unconfigured:
  assumes "services srv chainID = None" and "distinct ord" and "set ord = dom (services srv)"
  shows "case getServiceForChainID nt ord srv w chainID of
     (Inr s, srv', w') \<Rightarrow>
       (\<exists>pre k post. entries (services srv) ord = pre @ (k, s) # post \<and>
          probeLog w' = probeLog w @ map snd pre @ [s] \<and>
          (\<forall>i<length pre. \<not> answers nt (length (probeLog w) + i) (snd (pre ! i)) chainID) \<and>
          answers nt (length (probeLog w) + length pre) s chainID) \<and>
       srv' = srv\<lparr>services := (services srv)(chainID \<mapsto> s)\<rparr> \<and>
       (\<forall>ord'. getServiceForChainID nt ord' srv' w' chainID = (Inr s, srv', w'))
   | (Inl e, srv', w') \<Rightarrow>
       e = NoRPCServer chainID \<and> srv' = srv \<and>
       probeLog w' = probeLog w @ map snd (entries (services srv) ord) \<and>
       set (map snd (entries (services srv) ord)) = ran (services srv) \<and>
       (\<forall>i<length (entries (services srv) ord).
          \<not> answers nt (length (probeLog w) + i) (snd (entries (services srv) ord ! i)) chainID)"
proof (cases "scanServices nt chainID (entries (services srv) ord) w")
  case (Pair found w')
  show ?thesis
  proof (cases found)
    case None
    with Pair have scan: "scanServices nt chainID (entries (services srv) ord) w = (None, w')"
      by simp
    from scanServices_None [OF scan] ran_entries [OF assms(3)] show ?thesis
      using assms(1) by (simp add: getServiceForChainID_def scan)
  next
    case (Some s)
    with Pair have scan: "scanServices nt chainID (entries (services srv) ord) w = (Some s, w')"
      by simp
    from scanServices_Some [OF scan] have "\<exists>pre k post. entries (services srv) ord = pre @ (k, s) # post \<and>
          probeLog w' = probeLog w @ map snd pre @ [s] \<and>
          (\<forall>i<length pre. \<not> answers nt (length (probeLog w) + i) (snd (pre ! i)) chainID) \<and>
          answers nt (length (probeLog w) + length pre) s chainID"
      by blast
    then show ?thesis
      using assms(1) by (simp add: getServiceForChainID_def scan)
  qed
qed

theorem resolve_unconfigured_witness:
  "services twoSources 7 = None \<and> distinct [1, 5 :: int] \<and>
   set [1, 5] = dom (services twoSources) \<and>
   getServiceForChainID silentNet [1, 5] twoSources world0 7 =
     (Inr 1, twoSources\<lparr>services := (services twoSources)(7 \<mapsto> 1)\<rparr>,
      world0\<lparr>probeLog := [0, 1]\<rparr>) \<and>
   getServiceForChainID silentNet [7, 5, 1]
       (twoSources\<lparr>services := (services twoSources)(7 \<mapsto> 1)\<rparr>)
       (world0\<lparr>probeLog := [0, 1]\<rparr>) 7 =
     (Inr 1, twoSources\<lparr>services := (services twoSources)(7 \<mapsto> 1)\<rparr>,
      world0\<lparr>probeLog := [0, 1]\<rparr>)"
proof -
  have h1: "services twoSources 7 = None" and h2: "distinct [1, 5 :: int]"
    and h3: "set [1, 5] = dom (services twoSources)"
    by (auto simp add: twoSources_def)
  have eval: "getServiceForChainID silentNet [1, 5] twoSources world0 7 =
     (Inr 1, twoSources\<lparr>services := (services twoSources)(7 \<mapsto> 1)\<rparr>,
      world0\<lparr>probeLog := [0, 1]\<rparr>)"
    by (simp add: getServiceForChainID_def twoSources_def silentNet_def world0_def
        entries_Cons entries_Nil GetChainID_def Int64_def wrap64_def)
  from resolve_unconfigured [OF h1 h2 h3, where nt = silentNet and w = world0]
  have "\<forall>ord'. getServiceForChainID silentNet ord'
       (twoSources\<lparr>services := (services twoSources)(7 \<mapsto> 1)\<rparr>)
       (world0\<lparr>probeLog := [0, 1]\<rparr>) 7 =
     (Inr 1, twoSources\<lparr>services := (services twoSources)(7 \<mapsto> 1)\<rparr>,
      world0\<lparr>probeLog := [0, 1]\<rparr>)"
    unfolding eval by simp
  with h1 h2 h3 eval show ?thesis
    by blast
qed

subsection \<open>Teardown\<close>

lemma closeLoop_log: "closeLog (closeLoop es w) = closeLog w @ map snd es"
  by (induction es arbitrary: w) (auto simp add: ServiceClose_def)

lemma Close_log: "closeLog (Close ord srv w) = closeLog w @ map snd (entries (services srv) ord)"
  by (simp add: Close_def closeLoop_log)

text \<open>
  Claim C1 asks that teardown release every distinct source once. The code closes once
  per key. Here one source is configured under key 5 and reports chain 7; resolving 7
  stores the same pointer under key 7 as well, and teardown then closes it twice.
\<close>

theorem Close_releases_twice:
  "(case NewServer demoNet [5] demoConfig world0 of
      (Inl e, w1) \<Rightarrow> False
    | (Inr srv0, w1) \<Rightarrow>
        (case getServiceForChainID demoNet [5] srv0 w1 7 of
           (r, srv1, w2) \<Rightarrow>
             r = Inr 0 \<and> services srv1 5 = Some 0 \<and> services srv1 7 = Some 0 \<and>
             closeLog (Close [5, 7] srv1 w2) = [0, 0] \<and>
             closeLog (Close [7, 5] srv1 w2) = [0, 0]))"
  by (simp add: NewServer_def demoNet_def demoConfig_def world0_def entries_Cons entries_Nil
      NewERC721Service_def getServiceForChainID_def GetChainID_def Int64_def wrap64_def
      Close_def ServiceClose_def)

section \<open>Properties of the chain identifier parser\<close>

lemma digitVal_le: "isDigit c \<Longrightarrow> digitVal c \<le> 9"
  by (auto simp add: isDigit_def digitVal_def)

lemma foldl_decimal_ge: "n \<le> foldl (\<lambda>n c. n * 10 + digitVal c) n ds"
proof (induction ds arbitrary: n)
  case Nil
  show ?case by simp
next
  case (Cons c ds)
  have "n \<le> n * 10 + digitVal c" by simp
  also have "\<dots> \<le> foldl (\<lambda>n c. n * 10 + digitVal c) (n * 10 + digitVal c) ds"
    by (rule Cons.IH)
  finally show ?case by simp
qed

lemma parseUintLoop_Inr_iff:
  "parseUintLoop n ds = Inr m \<longleftrightarrow>
     (\<forall>c\<in>set ds. isDigit c) \<and> m = foldl (\<lambda>n c. n * 10 + digitVal c) n ds \<and>
     (ds \<noteq> [] \<longrightarrow> m \<le> maxUint64)"
proof (induction ds arbitrary: n)
  case Nil
  show ?case by auto
next
  case (Cons c ds)
  let ?n1 = "n * 10 + digitVal c"
  have ge: "?n1 \<le> foldl (\<lambda>n c. n * 10 + digitVal c) ?n1 ds"
    by (rule foldl_decimal_ge)
  show ?case
  proof (cases "isDigit c \<and> n < maxUint64 div 10 + 1 \<and> ?n1 \<le> maxUint64")
    case True
    then have "parseUintLoop n (c # ds) = parseUintLoop ?n1 ds"
      by simp
    with True ge show ?thesis
      by (cases "ds = []") (auto simp add: Cons.IH)
  next
    case False
    then have "parseUintLoop n (c # ds) \<noteq> Inr m"
      by auto
    moreover have "\<not> (isDigit c \<and> foldl (\<lambda>n c. n * 10 + digitVal c) ?n1 ds \<le> maxUint64)"
      using False ge by (auto simp add: maxUint64_def)
    ultimately show ?thesis
      by auto
  qed
qed

lemma ParseUint_Inr_iff:
  "ParseUint s = Inr m \<longleftrightarrow>
     s \<noteq> [] \<and> (\<forall>c\<in>set s. isDigit c) \<and> m = decimal s \<and> m \<le> maxUint64"
  by (auto simp add: ParseUint_def parseUintLoop_Inr_iff decimal_def)

lemma not_digit_sign: "\<not> isDigit CHR ''+''" "\<not> isDigit CHR ''-''"
  by (simp_all add: isDigit_def)

lemma ParseInt_Inr_iff:
  "ParseInt s = Inr n \<longleftrightarrow>
     s \<noteq> [] \<and>
     (\<exists>un. ParseUint (if hd s = CHR ''+'' \<or> hd s = CHR ''-'' then tl s else s) = Inr un \<and>
        (if hd s = CHR ''-'' then un \<le> 2 ^ 63 \<and> n = - int un
         else un < 2 ^ 63 \<and> n = int un))"
  by (auto simp add: ParseInt_def Let_def split: sum.splits num_error.splits)

text \<open>
  Claim C10, amended. Parsing a chain identifier succeeds exactly when the string is an
  optional sign, \<open>+\<close> or \<open>-\<close>, followed by one or more decimal digits that denote an
  integer from \<open>- 2 ^ 63\<close> to \<open>2 ^ 63 - 1\<close>, and the result is that integer: negative
  identifiers are accepted.
\<close>

theorem ParseChainID_accepts:
  "ParseChainID s = Inr n \<longleftrightarrow>
     (\<exists>sign ds. s = sign @ ds \<and> sign \<in> {[], ''+'', ''-''} \<and> ds \<noteq> [] \<and>
        (\<forall>c\<in>set ds. isDigit c) \<and>
        n = (if sign = ''-'' then - int (decimal ds) else int (decimal ds)) \<and>
        - (2 ^ 63) \<le> n \<and> n < 2 ^ 63)"
proof
  assume "ParseChainID s = Inr n"
  then have parsed: "ParseInt s = Inr n"
    by (simp add: ParseChainID_def split: sum.splits)
  then obtain un where s: "s \<noteq> []"
    and un: "ParseUint (if hd s = CHR ''+'' \<or> hd s = CHR ''-'' then tl s else s) = Inr un"
    and n: "if hd s = CHR ''-'' then un \<le> 2 ^ 63 \<and> n = - int un else un < 2 ^ 63 \<and> n = int un"
    unfolding ParseInt_Inr_iff by blast
  let ?ds = "if hd s = CHR ''+'' \<or> hd s = CHR ''-'' then tl s else s"
  let ?sign = "if hd s = CHR ''+'' \<or> hd s = CHR ''-'' then [hd s] else []"
  from un have ds: "?ds \<noteq> []" "\<forall>c\<in>set ?ds. isDigit c" "un = decimal ?ds"
    unfolding ParseUint_Inr_iff by simp_all
  have "s = ?sign @ ?ds"
    using s by (cases s) simp_all
  moreover have "?sign \<in> {[], ''+'', ''-''}"
    by auto
  moreover have "n = (if ?sign = ''-'' then - int (decimal ?ds) else int (decimal ?ds))"
    using n ds(3) by (auto split: if_splits)
  moreover have "- (2 ^ 63) \<le> n \<and> n < 2 ^ 63"
    using n by (auto split: if_splits)
  ultimately show "\<exists>sign ds. s = sign @ ds \<and> sign \<in> {[], ''+'', ''-''} \<and> ds \<noteq> [] \<and>
        (\<forall>c\<in>set ds. isDigit c) \<and>
        n = (if sign = ''-'' then - int (decimal ds) else int (decimal ds)) \<and>
        - (2 ^ 63) \<le> n \<and> n < 2 ^ 63"
    using ds(1,2) by blast
next
  assume "\<exists>sign ds. s = sign @ ds \<and> sign \<in> {[], ''+'', ''-''} \<and> ds \<noteq> [] \<and>
        (\<forall>c\<in>set ds. isDigit c) \<and>
        n = (if sign = ''-'' then - int (decimal ds) else int (decimal ds)) \<and>
        - (2 ^ 63) \<le> n \<and> n < 2 ^ 63"
  then obtain sign ds where s: "s = sign @ ds" and sign: "sign \<in> {[], ''+'', ''-''}"
    and ds: "ds \<noteq> []" "\<forall>c\<in>set ds. isDigit c"
    and n: "n = (if sign = ''-'' then - int (decimal ds) else int (decimal ds))"
    and range: "- (2 ^ 63) \<le> n" "n < 2 ^ 63"
    by blast
  from ds have hd: "hd ds \<noteq> CHR ''+''" "hd ds \<noteq> CHR ''-''"
    using not_digit_sign by (cases ds; auto)+
  have max: "decimal ds \<le> maxUint64"
    using n range by (auto simp add: maxUint64_def split: if_splits)
  then have un: "ParseUint ds = Inr (decimal ds)"
    using ds by (simp add: ParseUint_Inr_iff)
  have "ParseInt s = Inr n"
    unfolding ParseInt_Inr_iff
    using sign s ds hd un n range by (auto split: if_splits)
  then show "ParseChainID s = Inr n"
    by (simp add: ParseChainID_def)
qed

text \<open>Claim C10 as stated fails: the string \<open>-1\<close> parses, to the negative identifier
  \<open>-1\<close>.\<close>

theorem ParseChainID_negative_counterexample:
  "ParseChainID ''-1'' = Inr (- 1) \<and> (- 1 :: int) < 0"
  by (simp add: ParseChainID_def ParseInt_def ParseUint_def isDigit_def digitVal_def
      maxUint64_def)

theorem ParseChainID_accepts_witness:
  "ParseChainID ''-17'' = Inr (- 17) \<and> ParseChainID ''+17'' = Inr 17 \<and>
   ParseChainID ''17'' = Inr 17 \<and> ParseChainID ''17x'' \<noteq> Inr 17 \<and>
   (\<exists>sign ds. ''-17'' = sign @ ds \<and> sign \<in> {[], ''+'', ''-''} \<and> ds \<noteq> [] \<and>
      (\<forall>c\<in>set ds. isDigit c) \<and>
      (- 17 :: int) = (if sign = ''-'' then - int (decimal ds) else int (decimal ds)) \<and>
      - (2 ^ 63) \<le> (- 17 :: int) \<and> (- 17 :: int) < 2 ^ 63)"
proof -
  have 1: "ParseChainID ''-17'' = Inr (- 17)" and 2: "ParseChainID ''+17'' = Inr 17"
    and 3: "ParseChainID ''17'' = Inr 17" and 4: "ParseChainID ''17x'' \<noteq> Inr 17"
    by (simp_all add: ParseChainID_def ParseInt_def ParseUint_def isDigit_def digitVal_def
        maxUint64_def)
  from 1 ParseChainID_accepts [of "''-17''" "- 17"] 2 3 4 show ?thesis
    by blast
qed

subsection \<open>Initialization\<close>

lemma entries_append: "entries m (xs @ ys) = entries m xs @ entries m ys"
  by (induction xs) (auto simp add: entries_Nil entries_Cons split: option.splits)

lemma entries_dom: "set ord \<subseteq> dom m \<Longrightarrow> entries m ord = map (\<lambda>k. (k, the (m k))) ord"
  by (induction ord) (auto simp add: entries_Nil entries_Cons split: option.splits)

lemma newServerLoop_append:
  "newServerLoop nt (pre @ rest) svcs w =
     (case newServerLoop nt pre svcs w of
        (Inl e, w1) \<Rightarrow> (Inl e, w1)
      | (Inr svcs1, w1) \<Rightarrow> newServerLoop nt rest svcs1 w1)"
proof (induction pre arbitrary: svcs w)
  case Nil
  show ?case by simp
next
  case (Cons e pre)
  obtain k c where e: "e = (k, c)" by (cases e)
  show ?case
    by (simp add: e NewERC721Service_def GetChainID_def Cons.IH fun_upd_def
        split: option.splits)
qed

lemma newServerLoop_plain:
  assumes "\<forall>(k, c) \<in> set es. k \<noteq> 0 \<and> dialOK nt (RPCURL c)" and "distinct (map fst es)"
  shows "\<exists>svcs' w'. newServerLoop nt es svcs w = (Inr svcs', w') \<and>
     (\<forall>i<length es. svcs' (fst (es ! i)) = Some (nextService w + i)) \<and>
     (\<forall>k. k \<notin> fst ` set es \<longrightarrow> svcs' k = svcs k) \<and>
     nextService w' = nextService w + length es \<and> probeLog w' = probeLog w \<and>
     closeLog w' = closeLog w"
  using assms
proof (induction es arbitrary: svcs w)
  case Nil
  then show ?case by simp
next
  case (Cons e es)
  obtain k c where e: "e = (k, c)" by (cases e)
  let ?w1 = "w\<lparr>nextService := Suc (nextService w)\<rparr>"
  from Cons.prems have k: "k \<noteq> 0" "dialOK nt (RPCURL c)" "k \<notin> fst ` set es"
    and rest: "\<forall>(k, c) \<in> set es. k \<noteq> 0 \<and> dialOK nt (RPCURL c)" "distinct (map fst es)"
    by (auto simp add: e)
  from Cons.IH [OF rest, of "svcs(k \<mapsto> nextService w)" ?w1]
  obtain svcs' w' where run: "newServerLoop nt es (svcs(k \<mapsto> nextService w)) ?w1 = (Inr svcs', w')"
    and at: "\<forall>i<length es. svcs' (fst (es ! i)) = Some (nextService ?w1 + i)"
    and other: "\<forall>k'. k' \<notin> fst ` set es \<longrightarrow> svcs' k' = (svcs(k \<mapsto> nextService w)) k'"
    and w': "nextService w' = nextService ?w1 + length es" "probeLog w' = probeLog ?w1"
      "closeLog w' = closeLog ?w1"
    by blast
  have "newServerLoop nt (e # es) svcs w = (Inr svcs', w')"
    using k run by (simp add: e NewERC721Service_def)
  moreover have "\<forall>i<length (e # es). svcs' (fst ((e # es) ! i)) = Some (nextService w + i)"
    using at other k(3) by (auto simp add: e nth_Cons split: nat.splits)
  moreover have "\<forall>k'. k' \<notin> fst ` set (e # es) \<longrightarrow> svcs' k' = svcs k'"
    using other by (auto simp add: e)
  ultimately show ?case
    using w' by simp
qed

lemma newServerLoop_configured:
  assumes "set ks \<subseteq> dom m" and "0 \<notin> set ks" and "distinct ks"
    and "\<forall>k c. m k = Some c \<longrightarrow> dialOK nt (RPCURL c)"
  shows "\<exists>svcs' w'. newServerLoop nt (entries m ks) svcs w = (Inr svcs', w') \<and>
     (\<forall>i<length ks. svcs' (ks ! i) = Some (nextService w + i)) \<and>
     (\<forall>k. k \<notin> set ks \<longrightarrow> svcs' k = svcs k) \<and>
     nextService w' = nextService w + length ks \<and> probeLog w' = probeLog w \<and>
     closeLog w' = closeLog w"
proof -
  let ?es = "map (\<lambda>k. (k, the (m k))) ks"
  have es: "entries m ks = ?es"
    using assms(1) by (rule entries_dom)
  have 1: "\<forall>(k, c) \<in> set ?es. k \<noteq> 0 \<and> dialOK nt (RPCURL c)"
    using assms(1,2,4) by auto
  have 2: "distinct (map fst ?es)"
    using assms(3) by (simp add: comp_def)
  from newServerLoop_plain [OF 1 2, of svcs w] show ?thesis
    unfolding es by (simp add: comp_def image_image)
qed

text \<open>
  Claim C8, amended. When every configured source can be dialled: without a sentinel
  entry, initialization succeeds and every configured entry's source is keyed by its
  configured chain identifier. With a sentinel entry (key 0), initialization fails if the
  sentinel source's chain identifier query fails; if it answers, and the answer is not
  the key of another configured entry, initialization succeeds with the sentinel's source
  keyed by the answer and every other source by its configured key. The \<open>i\<close>-th entry
  visited gets the \<open>i\<close>-th source constructed.
\<close>

theorem NewServer_keys:
  assumes "distinct ord" and "set ord = dom (RPCConfigs cfg)"
    and "\<forall>k c. RPCConfigs cfg k = Some c \<longrightarrow> dialOK nt (RPCURL c)"
  shows "(0 \<notin> set ord \<longrightarrow>
       (\<exists>srv w'. NewServer nt ord cfg w = (Inr srv, w') \<and> config srv = cfg \<and>
          dom (services srv) = set ord \<and>
          (\<forall>i<length ord. services srv (ord ! i) = Some (nextService w + i)))) \<and>
     (\<forall>pre post. ord = pre @ 0 # post \<longrightarrow>
       (case chainIDOf nt (length (probeLog w)) (nextService w + length pre) of
          None \<Rightarrow> fst (NewServer nt ord cfg w) = Inl ChainIDQueryFailed
        | Some a \<Rightarrow>
            Int64 a \<notin> set pre \<union> set post \<longrightarrow>
              (\<exists>srv w'. NewServer nt ord cfg w = (Inr srv, w') \<and> config srv = cfg \<and>
                 dom (services srv) = insert (Int64 a) (set pre \<union> set post) \<and>
                 (\<forall>i<length ord.
                    services srv (if ord ! i = 0 then Int64 a else ord ! i)
                      = Some (nextService w + i)))))"
proof (intro conjI impI allI)
  let ?m = "RPCConfigs cfg"
  assume no0: "0 \<notin> set ord"
  from newServerLoop_configured [OF _ no0 assms(1,3), of Map.empty w] assms(2)
  obtain svcs' w' where run: "newServerLoop nt (entries ?m ord) Map.empty w = (Inr svcs', w')"
    and at: "\<forall>i<length ord. svcs' (ord ! i) = Some (nextService w + i)"
    and other: "\<forall>k. k \<notin> set ord \<longrightarrow> svcs' k = None"
    by auto
  have "dom svcs' = set ord"
  proof
    show "dom svcs' \<subseteq> set ord"
      using other by auto
    show "set ord \<subseteq> dom svcs'"
      using at by (auto simp add: in_set_conv_nth)
  qed
  with run at
  show "\<exists>srv w'. NewServer nt ord cfg w = (Inr srv, w') \<and> config srv = cfg \<and>
          dom (services srv) = set ord \<and>
          (\<forall>i<length ord. services srv (ord ! i) = Some (nextService w + i))"
    by (simp add: NewServer_def)
next
  fix pre post :: "int list"
  let ?m = "RPCConfigs cfg"
  let ?s0 = "nextService w + length pre"
  assume ord: "ord = pre @ 0 # post"
  obtain c0 where c0: "?m 0 = Some c0"
    using assms(2) ord by auto
  have dial0: "dialOK nt (RPCURL c0)"
    using assms(3) c0 by blast
  have pre: "set pre \<subseteq> dom ?m" "0 \<notin> set pre" "distinct pre"
    and post: "set post \<subseteq> dom ?m" "0 \<notin> set post" "distinct post"
    and disj: "set pre \<inter> set post = {}"
    using assms(1,2) ord by auto
  have es: "entries ?m ord = entries ?m pre @ (0, c0) # entries ?m post"
    by (simp add: ord entries_append entries_Cons c0)
  from newServerLoop_configured [OF pre assms(3), of Map.empty w]
  obtain svcs1 w1 where run1: "newServerLoop nt (entries ?m pre) Map.empty w = (Inr svcs1, w1)"
    and at1: "\<forall>i<length pre. svcs1 (pre ! i) = Some (nextService w + i)"
    and other1: "\<forall>k. k \<notin> set pre \<longrightarrow> svcs1 k = None"
    and w1: "nextService w1 = ?s0" "probeLog w1 = probeLog w"
    by auto
  have step: "newServerLoop nt (entries ?m ord) Map.empty w =
      (case chainIDOf nt (length (probeLog w)) ?s0 of
         None \<Rightarrow> (Inl ChainIDQueryFailed,
                  w1\<lparr>nextService := Suc ?s0, probeLog := probeLog w @ [?s0]\<rparr>)
       | Some a \<Rightarrow>
           newServerLoop nt (entries ?m post) (svcs1(Int64 a \<mapsto> ?s0))
             (w1\<lparr>nextService := Suc ?s0, probeLog := probeLog w @ [?s0]\<rparr>))"
    unfolding es newServerLoop_append
    by (simp add: run1 NewERC721Service_def GetChainID_def dial0 w1 split: option.splits)
  show "case chainIDOf nt (length (probeLog w)) ?s0 of
          None \<Rightarrow> fst (NewServer nt ord cfg w) = Inl ChainIDQueryFailed
        | Some a \<Rightarrow>
            Int64 a \<notin> set pre \<union> set post \<longrightarrow>
              (\<exists>srv w'. NewServer nt ord cfg w = (Inr srv, w') \<and> config srv = cfg \<and>
                 dom (services srv) = insert (Int64 a) (set pre \<union> set post) \<and>
                 (\<forall>i<length ord.
                    services srv (if ord ! i = 0 then Int64 a else ord ! i)
                      = Some (nextService w + i)))"
  proof (cases "chainIDOf nt (length (probeLog w)) ?s0")
    case None
    then show ?thesis
      by (simp add: NewServer_def step)
  next
    case (Some a)
    let ?w2 = "w1\<lparr>nextService := Suc ?s0, probeLog := probeLog w @ [?s0]\<rparr>"
    let ?svcs2 = "svcs1(Int64 a \<mapsto> ?s0)"
    have "Int64 a \<notin> set pre \<union> set post \<longrightarrow>
              (\<exists>srv w'. NewServer nt ord cfg w = (Inr srv, w') \<and> config srv = cfg \<and>
                 dom (services srv) = insert (Int64 a) (set pre \<union> set post) \<and>
                 (\<forall>i<length ord.
                    services srv (if ord ! i = 0 then Int64 a else ord ! i)
                      = Some (nextService w + i)))"
    proof
      assume fresh: "Int64 a \<notin> set pre \<union> set post"
      from newServerLoop_configured [OF post assms(3), of ?svcs2 ?w2]
      obtain svcs' w' where run2: "newServerLoop nt (entries ?m post) ?svcs2 ?w2 = (Inr svcs', w')"
        and at2: "\<forall>i<length post. svcs' (post ! i) = Some (Suc ?s0 + i)"
        and other2: "\<forall>k. k \<notin> set post \<longrightarrow> svcs' k = ?svcs2 k"
        by auto
      have run: "NewServer nt ord cfg w = (Inr \<lparr>services = svcs', config = cfg\<rparr>, w')"
        by (simp add: NewServer_def step Some run2)
      have key: "svcs' (if ord ! i = 0 then Int64 a else ord ! i) = Some (nextService w + i)"
        if i: "i < length ord" for i
      proof -
        consider "i < length pre" | "i = length pre" | "length pre < i"
          by linarith
        then show ?thesis
        proof cases
          case 1
          then have k: "ord ! i = pre ! i" "pre ! i \<in> set pre"
            by (simp_all add: ord nth_append)
          with pre(2) disj fresh have "pre ! i \<noteq> 0" "pre ! i \<notin> set post" "pre ! i \<noteq> Int64 a"
            by auto
          with k other2 at1 1 show ?thesis
            by simp
        next
          case 2
          then have "ord ! i = 0"
            by (simp add: ord)
          with 2 other2 fresh show ?thesis
            by simp
        next
          case 3
          with i have j: "i - Suc (length pre) < length post"
            by (simp add: ord)
          from 3 have k: "ord ! i = post ! (i - Suc (length pre))"
            by (simp add: ord nth_append nth_Cons')
          from j post(2) have "post ! (i - Suc (length pre)) \<noteq> 0"
            by (metis nth_mem)
          with k at2 j 3 show ?thesis
            by simp
        qed
      qed
      have "dom svcs' = insert (Int64 a) (set pre \<union> set post)"
      proof
        show "dom svcs' \<subseteq> insert (Int64 a) (set pre \<union> set post)"
        proof
          fix k
          assume "k \<in> dom svcs'"
          then obtain y where y: "svcs' k = Some y"
            by auto
          show "k \<in> insert (Int64 a) (set pre \<union> set post)"
          proof (rule ccontr)
            assume out: "k \<notin> insert (Int64 a) (set pre \<union> set post)"
            then have "svcs' k = ?svcs2 k"
              using other2 by simp
            also have "\<dots> = svcs1 k"
              using out by simp
            also have "\<dots> = None"
              using out other1 by simp
            finally show False
              using y by simp
          qed
        qed
        show "insert (Int64 a) (set pre \<union> set post) \<subseteq> dom svcs'"
        proof
          fix k
          assume "k \<in> insert (Int64 a) (set pre \<union> set post)"
          then consider "k = Int64 a" | "k \<in> set pre" | "k \<in> set post"
            by auto
          then show "k \<in> dom svcs'"
          proof cases
            case 1
            with other2 fresh show ?thesis by auto
          next
            case 2
            then obtain i where i: "i < length pre" "pre ! i = k"
              by (auto simp add: in_set_conv_nth)
            from 2 disj fresh have "k \<notin> set post" "k \<noteq> Int64 a"
              by auto
            then have "svcs' k = svcs1 k"
              using other2 by simp
            with at1 i show ?thesis
              by auto
          next
            case 3
            then obtain j where "j < length post" "post ! j = k"
              by (auto simp add: in_set_conv_nth)
            with at2 show ?thesis
              by auto
          qed
        qed
      qed
      with run key show "\<exists>srv w'. NewServer nt ord cfg w = (Inr srv, w') \<and> config srv = cfg \<and>
                 dom (services srv) = insert (Int64 a) (set pre \<union> set post) \<and>
                 (\<forall>i<length ord.
                    services srv (if ord ! i = 0 then Int64 a else ord ! i)
                      = Some (nextService w + i))"
        by simp
    qed
    with Some show ?thesis
      by simp
  qed
qed

theorem NewServer_keys_witness:
  "distinct [0 :: int] \<and> set [0] = dom (RPCConfigs legacyConfig) \<and>
   (\<exists>srv w'. NewServer demoNet [0] legacyConfig world0 = (Inr srv, w') \<and>
      config srv = legacyConfig \<and> dom (services srv) = {7} \<and> services srv 7 = Some 0)"
proof -
  have h1: "distinct [0 :: int]" and h2: "set [0] = dom (RPCConfigs legacyConfig)"
    and h3: "\<forall>k c. RPCConfigs legacyConfig k = Some c \<longrightarrow> dialOK demoNet (RPCURL c)"
    by (simp_all add: legacyConfig_def demoNet_def)
  have ans: "chainIDOf demoNet (length (probeLog world0)) (nextService world0 + length ([] :: int list))
      = Some 7"
    by (simp add: demoNet_def)
  have seven: "Int64 7 = 7"
    by (simp add: Int64_def wrap64_def)
  from NewServer_keys [OF h1 h2 h3, of world0, THEN conjunct2, rule_format, of "[]" "[]"]
  have "\<exists>srv w'. NewServer demoNet [0] legacyConfig world0 = (Inr srv, w') \<and>
      config srv = legacyConfig \<and> dom (services srv) = {7} \<and> services srv 7 = Some 0"
    unfolding ans by (simp add: seven world0_def)
  with h1 h2 show ?thesis
    by blast
qed

text \<open>
  Claim C8 as stated fails when the sentinel's source reports the key of another
  configured entry. With entries for keys 1 and 0 visited in this order and both sources
  reporting chain 1, two sources are constructed and the registry holds one key: the
  source constructed for the entry configured as chain 1, pointer 0, is keyed nowhere.
\<close>

theorem NewServer_keys_counterexample:
  "dom (RPCConfigs collideConfig) = {0, 1} \<and>
   (case NewServer chainOneNet [1, 0] collideConfig world0 of
      (Inl e, w') \<Rightarrow> False
    | (Inr srv, w') \<Rightarrow>
        nextService w' = 2 \<and> dom (services srv) = {1} \<and> services srv 1 = Some 1 \<and>
        services srv 1 \<noteq> Some 0)"
  by (auto simp add: NewServer_def collideConfig_def chainOneNet_def world0_def entries_Cons
      entries_Nil NewERC721Service_def GetChainID_def Int64_def wrap64_def)

subsection \<open>Rows and their order\<close>

lemma forX_cong:
  "(\<And>x. x0 \<le> x \<Longrightarrow> x < w \<Longrightarrow> f x = g x) \<Longrightarrow> forX f x0 w = forX g x0 w"
proof (induction f x0 w rule: forX.induct)
  case (1 cell x width)
  show ?case
  proof (cases "x < width")
    case False
    then show ?thesis
      by (subst forX.simps, subst (2) forX.simps) simp
  next
    case True
    have here: "cell x = g x"
      using True by (intro "1.prems") simp_all
    show ?thesis
    proof (cases "g x")
      case (Inl e)
      with True here show ?thesis
        by (subst forX.simps, subst (2) forX.simps) simp
    next
      case (Inr s)
      have "forX cell (x + 1) width = forX g (x + 1) width"
        using True here Inr "1.prems" by (intro "1.IH") simp_all
      with True here Inr show ?thesis
        by (subst forX.simps, subst (2) forX.simps) simp
    qed
  qed
qed

lemma seqRows_cong:
  "(\<And>y. y \<in> set ys \<Longrightarrow> f y = g y) \<Longrightarrow> seqRows f ys = seqRows g ys"
  by (induction ys) (simp_all split: sum.splits)

lemma seqRows_map: "seqRows f (map g ys) = seqRows (\<lambda>y. f (g y)) ys"
  by (induction ys) (simp_all split: sum.splits)

lemma seqRows_Inr:
  "seqRows row ys = Inr t \<Longrightarrow>
     \<exists>lines. length lines = length ys \<and> t = concat lines \<and>
       (\<forall>i<length ys. row (ys ! i) = Inr (lines ! i))"
proof (induction ys arbitrary: t)
  case Nil
  then show ?case by simp
next
  case (Cons y ys)
  from Cons.prems obtain s t' where s: "row y = Inr s" and t': "seqRows row ys = Inr t'"
    and t: "t = s @ t'"
    by (auto split: sum.splits)
  from Cons.IH [OF t'] obtain lines where "length lines = length ys" "t' = concat lines"
    "\<forall>i<length ys. row (ys ! i) = Inr (lines ! i)"
    by blast
  then have "length (s # lines) = length (y # ys) \<and> t = concat (s # lines) \<and>
       (\<forall>i<length (y # ys). row ((y # ys) ! i) = Inr ((s # lines) ! i))"
    using s t by (auto simp add: nth_Cons split: nat.splits)
  then show ?case by blast
qed

lemma rev_upto: "rev [0..n] = map (\<lambda>y. n - y) [0..n]"
proof (rule nth_equalityI)
  show "length (rev [0..n]) = length (map (\<lambda>y. n - y) [0..n])"
    by simp
next
  fix i
  assume "i < length (rev [0..n])"
  then have i: "i < nat (n + 1)"
    by (simp add: length_upto)
  then have "rev [0..n] ! i = [0..n] ! (nat (n + 1) - Suc i)"
    by (simp add: rev_nth length_upto)
  also have "\<dots> = 0 + int (nat (n + 1) - Suc i)"
    using i by (intro nth_upto) simp
  also have "\<dots> = n - (0 + int i)"
    using i by simp
  also have "\<dots> = n - [0..n] ! i"
    using i by (subst nth_upto) simp_all
  finally show "rev [0..n] ! i = map (\<lambda>y. n - y) [0..n] ! i"
    using i by (simp add: length_upto)
qed

lemma rowOrder_nth:
  "i < nat h \<Longrightarrow> rowOrder td h ! i = (if td then int i else h - 1 - int i)"
  by (simp add: rowOrder_def rev_upto length_upto nth_upto)

lemma decode_Inr_checks:
  assumes "decodeBMPData b c0 c1 c2 c3 c4 = Some (Inr out)"
  shows "54 \<le> length b" "Signature (parseHeader b) = 0x4D42" "imgBpp b \<in> {1, 4, 8, 24, 32}"
    "\<not> len b < add64 (imgStart b) (mul64 (rowSizeOf (imgWidth b) (imgBpp b)) (imgHeight b))"
proof -
  show 1: "54 \<le> length b"
    using assms by (auto simp add: decodeBMPData_def len_def split: if_splits)
  show 2: "Signature (parseHeader b) = 0x4D42"
    using assms 1 by (auto simp add: decodeBMPData_def len_def split: if_splits)
  show 3: "imgBpp b \<in> {1, 4, 8, 24, 32}"
  proof (rule ccontr)
    assume "imgBpp b \<notin> {1, 4, 8, 24, 32}"
    with 1 2 have "decodeBMPData b c0 c1 c2 c3 c4 = Some (Inl (UnsupportedDepth (imgBpp b)))"
      by (simp add: decodeBMPData_def len_def Let_def)
    with assms show False by simp
  qed
  show "\<not> len b < add64 (imgStart b) (mul64 (rowSizeOf (imgWidth b) (imgBpp b)) (imgHeight b))"
    using assms TruncatedData_iff [OF 1 2 3, of c0 c1 c2 c3 c4] by auto
qed

subsection \<open>Cells within the buffer\<close>

lemma cell1_inbounds:
  assumes "0 \<le> rowOffset" "0 \<le> x" "rowOffset + x div 8 < len b" "len b < 2 ^ 63"
  shows "cell1 b c0 c1 rowOffset x =
     (if drop_bit (nat (7 - x mod 8)) (b ! nat (rowOffset + x div 8)) AND 1 = 1 then Inr c1
      else Inr c0)"
proof -
  have "x sdiv 8 = x div 8"
    using assms(2) by (simp add: sdiv_nonneg)
  moreover have "x smod 8 = x mod 8"
    using assms(2) by (simp add: signed_modulo_int_def sgn_if)
  moreover have "add64 rowOffset (x div 8) = rowOffset + x div 8"
    using assms by (simp add: add64_def wrap64_id)
  moreover have "sub64 7 (x mod 8) = 7 - x mod 8"
    by (simp add: sub64_def wrap64_id)
  moreover have "index b (rowOffset + x div 8) = Inr (b ! nat (rowOffset + x div 8))"
    using assms by (simp add: index_def)
  ultimately show ?thesis
    using assms(3) by (simp add: cell1_def Let_def)
qed

lemma bytesPerPixelOf_8: "bytesPerPixelOf 8 = 1"
  by (simp add: bytesPerPixelOf_def signed_divide_int_def)

lemma cellN_gray:
  assumes "0 \<le> rowOffset" "0 \<le> x" "rowOffset + x + 1 \<le> len b" "len b < 2 ^ 63"
  shows "cellN b 8 1 c0 c1 c2 c3 c4 rowOffset x =
     Inr (brightnessChar c0 c1 c2 c3 c4 (b ! nat (rowOffset + x)))"
proof -
  have "add64 rowOffset (mul64 x 1) = rowOffset + x"
    using assms by (simp add: add64_def mul64_def wrap64_id)
  moreover have "add64 (rowOffset + x) 1 = rowOffset + x + 1"
    using assms by (simp add: add64_def wrap64_id)
  moreover have "index b (rowOffset + x) = Inr (b ! nat (rowOffset + x))"
    using assms by (simp add: index_def)
  ultimately show ?thesis
    using assms(3) by (simp add: cellN_def Let_def)
qed

lemma rowSizeOf_nonneg:
  assumes "0 \<le> w" "w < 2147483648"
  shows "rowSizeOf w bpp = ((w * uint bpp + 31) div 32) * 4"
proof -
  have "0 \<le> w * uint bpp"
    using assms by simp
  then show ?thesis
    using assms by (simp add: rowSizeOf_exact sdiv_nonneg)
qed

lemma cellN_colour_exact:
  assumes bpp: "bpp = 24 \<or> bpp = 32"
    and bounds: "0 \<le> rowOffset" "0 \<le> x"
      "rowOffset + x * bytesPerPixelOf bpp + bytesPerPixelOf bpp \<le> len b" "len b < 2 ^ 63"
  shows "cellN b bpp (bytesPerPixelOf bpp) c0 c1 c2 c3 c4 rowOffset x =
     Inr (brightnessChar c0 c1 c2 c3 c4
            (luminance (b ! nat (rowOffset + x * bytesPerPixelOf bpp + 2))
               (b ! nat (rowOffset + x * bytesPerPixelOf bpp + 1))
               (b ! nat (rowOffset + x * bytesPerPixelOf bpp))))"
proof -
  define k where "k = bytesPerPixelOf bpp"
  have k: "3 \<le> k" "k \<le> 4"
    unfolding k_def using bpp by (auto simp add: bytesPerPixelOf_24_32)
  define p where "p = x * k"
  have p0: "0 \<le> p"
    unfolding p_def using bounds(2) k by simp
  have fits: "rowOffset + p + k \<le> len b"
    using bounds(3) by (simp add: p_def k_def)
  have "mul64 x k = p"
    using p0 fits bounds(1,4) k by (simp add: mul64_def wrap64_id flip: p_def)
  then have p: "rowOffset + p = add64 rowOffset (mul64 x k)"
    using p0 fits bounds(1,4) k by (simp add: add64_def wrap64_id)
  have "cellN b bpp k c0 c1 c2 c3 c4 rowOffset x =
     Inr (brightnessChar c0 c1 c2 c3 c4
            (luminance (b ! nat (rowOffset + p + 2)) (b ! nat (rowOffset + p + 1))
               (b ! nat (rowOffset + p))))"
    using bounds(1,4) p0 fits by (intro cellN_colour [OF bpp, folded k_def] p) simp_all
  then show ?thesis
    by (simp add: p_def k_def)
qed

lemma cellOf_local:
  assumes bpp: "imgBpp A \<in> {1, 4, 8, 24, 32}" "imgBpp B = imgBpp A"
    and w: "w < 2147483648" and x: "0 \<le> x" "x < w"
    and rs: "rs = rowSizeOf w (imgBpp A)"
    and A: "0 \<le> oA" "oA + rs \<le> len A" "len A < 2 ^ 63"
    and B: "0 \<le> oB" "oB + rs \<le> len B" "len B < 2 ^ 63"
    and bytes: "\<And>j. 0 \<le> j \<Longrightarrow> j < rs \<Longrightarrow> B ! nat (oB + j) = A ! nat (oA + j)"
  shows "cellOf B c0 c1 c2 c3 c4 oB x = cellOf A c0 c1 c2 c3 c4 oA x"
proof -
  have w0: "0 \<le> w"
    using x by simp
  note size = rowSizeOf_nonneg [OF w0 w, of "imgBpp A", folded rs]
  from bpp(1) consider "imgBpp A = 1" | "imgBpp A = 4" | "imgBpp A = 8" | "imgBpp A = 24"
    | "imgBpp A = 32"
    by auto
  then show ?thesis
  proof cases
    case 1
    with size have rs1: "rs = ((w + 31) div 32) * 4"
      by simp
    have j: "0 \<le> x div 8" "x div 8 < rs"
      using x rs1 by simp_all
    have "cell1 B c0 c1 oB x = cell1 A c0 c1 oA x"
      using x A B j bytes [OF j] by (simp add: cell1_inbounds)
    with 1 bpp(2) show ?thesis
      by (simp add: cellOf_def)
  next
    case 2
    with size have "0 \<le> rs"
      using w0 by simp
    then have "cellN B 4 0 c0 c1 c2 c3 c4 oB x = Inr c2" "cellN A 4 0 c0 c1 c2 c3 c4 oA x = Inr c2"
      using A B by (simp_all add: cellN_4)
    with 2 bpp(2) show ?thesis
      by (simp add: cellOf_def bytesPerPixelOf_4)
  next
    case 3
    with size have rs8: "rs = ((w * 8 + 31) div 32) * 4"
      by simp
    have j: "0 \<le> x" "x < rs"
      using x rs8 by simp_all
    have "cellN B 8 1 c0 c1 c2 c3 c4 oB x = cellN A 8 1 c0 c1 c2 c3 c4 oA x"
      using x A B j bytes [OF j] by (simp add: cellN_gray)
    with 3 bpp(2) show ?thesis
      by (simp add: cellOf_def bytesPerPixelOf_8)
  next
    case 4
    with size have rs24: "rs = ((w * 24 + 31) div 32) * 4"
      by simp
    have j: "0 \<le> x * 3" "x * 3 + 2 < rs"
      using x rs24 by simp_all
    have "B ! nat (oB + x * 3) = A ! nat (oA + x * 3)"
      "B ! nat (oB + (x * 3 + 1)) = A ! nat (oA + (x * 3 + 1))"
      "B ! nat (oB + (x * 3 + 2)) = A ! nat (oA + (x * 3 + 2))"
      using j by (simp_all add: bytes)
    moreover have "cellN B 24 (bytesPerPixelOf 24) c0 c1 c2 c3 c4 oB x =
        Inr (brightnessChar c0 c1 c2 c3 c4
               (luminance (B ! nat (oB + x * bytesPerPixelOf 24 + 2))
                  (B ! nat (oB + x * bytesPerPixelOf 24 + 1))
                  (B ! nat (oB + x * bytesPerPixelOf 24))))"
      using x B j by (intro cellN_colour_exact) (simp_all add: bytesPerPixelOf_24_32)
    moreover have "cellN A 24 (bytesPerPixelOf 24) c0 c1 c2 c3 c4 oA x =
        Inr (brightnessChar c0 c1 c2 c3 c4
               (luminance (A ! nat (oA + x * bytesPerPixelOf 24 + 2))
                  (A ! nat (oA + x * bytesPerPixelOf 24 + 1))
                  (A ! nat (oA + x * bytesPerPixelOf 24))))"
      using x A j by (intro cellN_colour_exact) (simp_all add: bytesPerPixelOf_24_32)
    ultimately have "cellN B 24 (bytesPerPixelOf 24) c0 c1 c2 c3 c4 oB x
        = cellN A 24 (bytesPerPixelOf 24) c0 c1 c2 c3 c4 oA x"
      by (simp add: bytesPerPixelOf_24_32 add.assoc)
    with 4 bpp(2) show ?thesis
      by (simp add: cellOf_def)
  next
    case 5
    with size have rs32: "rs = ((w * 32 + 31) div 32) * 4"
      by simp
    have j: "0 \<le> x * 4" "x * 4 + 3 < rs"
      using x rs32 by simp_all
    have "B ! nat (oB + x * 4) = A ! nat (oA + x * 4)"
      "B ! nat (oB + (x * 4 + 1)) = A ! nat (oA + (x * 4 + 1))"
      "B ! nat (oB + (x * 4 + 2)) = A ! nat (oA + (x * 4 + 2))"
      using j by (simp_all add: bytes)
    moreover have "cellN B 32 (bytesPerPixelOf 32) c0 c1 c2 c3 c4 oB x =
        Inr (brightnessChar c0 c1 c2 c3 c4
               (luminance (B ! nat (oB + x * bytesPerPixelOf 32 + 2))
                  (B ! nat (oB + x * bytesPerPixelOf 32 + 1))
                  (B ! nat (oB + x * bytesPerPixelOf 32))))"
      using x B j by (intro cellN_colour_exact) (simp_all add: bytesPerPixelOf_24_32)
    moreover have "cellN A 32 (bytesPerPixelOf 32) c0 c1 c2 c3 c4 oA x =
        Inr (brightnessChar c0 c1 c2 c3 c4
               (luminance (A ! nat (oA + x * bytesPerPixelOf 32 + 2))
                  (A ! nat (oA + x * bytesPerPixelOf 32 + 1))
                  (A ! nat (oA + x * bytesPerPixelOf 32))))"
      using x A j by (intro cellN_colour_exact) (simp_all add: bytesPerPixelOf_24_32)
    ultimately have "cellN B 32 (bytesPerPixelOf 32) c0 c1 c2 c3 c4 oB x
        = cellN A 32 (bytesPerPixelOf 32) c0 c1 c2 c3 c4 oA x"
      by (simp add: bytesPerPixelOf_24_32 add.assoc)
    with 5 bpp(2) show ?thesis
      by (simp add: cellOf_def)
  qed
qed

subsection \<open>Mirrored buffers\<close>

lemma mirrored_headers:
  assumes "mirrored A B"
  shows "parseHeader B = parseHeader A" "imgWidth B = imgWidth A" "imgBpp B = imgBpp A"
    "imgHeight B = imgHeight A" "isTopDownOf (parseInfoHeader B)"
    "\<not> isTopDownOf (parseInfoHeader A)" "0 < imgHeight A"
proof -
  from assms have len: "54 \<le> length A" "length B = length A"
    and same: "\<And>i. i < 54 \<Longrightarrow> i < 22 \<or> 26 \<le> i \<Longrightarrow> B ! i = A ! i"
    and h: "0 < sint (Height (parseInfoHeader A))"
      "sint (Height (parseInfoHeader B)) = - sint (Height (parseInfoHeader A))"
    unfolding mirrored_def by blast+
  show "parseHeader B = parseHeader A"
    using len by (simp add: parseHeader_def Uint16_def Uint32_def slice_def same)
  show "imgWidth B = imgWidth A"
    using len by (simp add: parseInfoHeader_def Uint32_def slice_def same)
  show "imgBpp B = imgBpp A"
    using len by (simp add: parseInfoHeader_def Uint16_def slice_def same)
  show "imgHeight B = imgHeight A" "isTopDownOf (parseInfoHeader B)"
    "\<not> isTopDownOf (parseInfoHeader A)" "0 < imgHeight A"
    using h by (simp_all add: heightOf_abs isTopDownOf_def)
qed

lemma row_fits:
  assumes "0 \<le> y" "y < n" "0 \<le> (rs :: int)"
  shows "0 \<le> y * rs" "y * rs + rs \<le> n * rs"
proof -
  show "0 \<le> y * rs"
    using assms by simp
  have "(y + 1) * rs \<le> n * rs"
    using assms by (intro mult_right_mono) simp_all
  then show "y * rs + rs \<le> n * rs"
    by (simp add: algebra_simps)
qed

lemma rowBytes_nth:
  assumes "0 \<le> imgStart b + y * imgRowSize b" "0 \<le> j" "j < imgRowSize b"
    and "imgStart b + y * imgRowSize b + imgRowSize b \<le> len b"
  shows "rowBytes b y ! nat j = b ! nat (imgStart b + y * imgRowSize b + j)"
proof -
  have "nat (imgStart b + y * imgRowSize b) + nat j = nat (imgStart b + y * imgRowSize b + j)"
    using assms by simp
  moreover have "nat (imgStart b + y * imgRowSize b) \<le> length b"
    using assms by (simp add: len_def)
  ultimately show ?thesis
    using assms by (simp add: rowBytes_def)
qed

lemma mirrored_rows:
  assumes m: "mirrored A B" and lenA: "len A < 2 ^ 63" and y: "0 \<le> y" "y < imgHeight A"
    and bpp: "imgBpp A \<in> {1, 4, 8, 24, 32}"
  shows "renderRow (cellOf B c0 c1 c2 c3 c4) (imgStart A) (imgRowSize A) (imgWidth A) y =
     renderRow (cellOf A c0 c1 c2 c3 c4) (imgStart A) (imgRowSize A) (imgWidth A)
       (imgHeight A - 1 - y)"
proof -
  define w where "w = imgWidth A"
  define rs where "rs = imgRowSize A"
  define s where "s = imgStart A"
  define n where "n = imgHeight A"
  define y' where "y' = n - 1 - y"
  note hdr = mirrored_headers [OF m]
  have w: "w < 2147483648"
    unfolding w_def by (rule sint32_bounds)
  have s0: "0 \<le> s"
    unfolding s_def by (rule uint32_bounds)
  have lenB: "len B = len A"
    using m by (simp add: mirrored_def len_def)
  have stored: "s + n * rs \<le> len A"
    using m by (simp add: mirrored_def s_def n_def rs_def mult.commute)
  have y': "0 \<le> y'" "y' < n"
    using y by (simp_all add: y'_def n_def)
  have rows: "rowBytes B y = rowBytes A y'"
    using m y by (simp add: mirrored_def y'_def n_def)
  have "forX (cellOf B c0 c1 c2 c3 c4 (add64 s (mul64 y rs))) 0 w =
      forX (cellOf A c0 c1 c2 c3 c4 (add64 s (mul64 y' rs))) 0 w"
  proof (rule forX_cong)
    fix x :: int
    assume x: "0 \<le> x" "x < w"
    then have w0: "0 \<le> w"
      by simp
    have "0 \<le> w * uint (imgBpp A)"
      using w0 by simp
    then have rs0: "0 \<le> rs"
      unfolding rs_def w_def [symmetric] by (simp add: rowSizeOf_nonneg [OF w0 w])
    note fy = row_fits [OF y(1) y(2) [folded n_def] rs0]
    note fy' = row_fits [OF y' rs0]
    define oB where "oB = s + y * rs"
    define oA where "oA = s + y' * rs"
    have oB: "0 \<le> oB" "oB + rs \<le> len A"
      using s0 fy stored by (simp_all add: oB_def)
    have oA: "0 \<le> oA" "oA + rs \<le> len A"
      using s0 fy' stored by (simp_all add: oA_def)
    have eB: "add64 s (mul64 y rs) = oB"
      unfolding oB_def using s0 fy(1) oB(2) lenA rs0
      by (intro add64_mul64_exact) (simp_all add: oB_def)
    have eA: "add64 s (mul64 y' rs) = oA"
      unfolding oA_def using s0 fy'(1) oA(2) lenA rs0
      by (intro add64_mul64_exact) (simp_all add: oA_def)
    have bytes: "B ! nat (oB + j) = A ! nat (oA + j)" if j: "0 \<le> j" "j < rs" for j
    proof -
      have "rowBytes B y ! nat j = B ! nat (imgStart B + y * imgRowSize B + j)"
        using oB j lenB
        by (intro rowBytes_nth) (simp_all add: hdr oB_def s_def rs_def w_def)
      moreover have "rowBytes A y' ! nat j = A ! nat (imgStart A + y' * imgRowSize A + j)"
        using oA j
        by (intro rowBytes_nth) (simp_all add: oA_def s_def rs_def w_def)
      ultimately show ?thesis
        using rows by (simp add: hdr oB_def oA_def s_def rs_def w_def)
    qed
    have "cellOf B c0 c1 c2 c3 c4 oB x = cellOf A c0 c1 c2 c3 c4 oA x"
    proof (rule cellOf_local [where w = w and rs = rs])
      show "imgBpp A \<in> {1, 4, 8, 24, 32}"
        by (rule bpp)
    qed (use x w oA oB lenA lenB bytes hdr in \<open>simp_all add: rs_def w_def\<close>)
    then show "cellOf B c0 c1 c2 c3 c4 (add64 s (mul64 y rs)) x =
        cellOf A c0 c1 c2 c3 c4 (add64 s (mul64 y' rs)) x"
      by (simp add: eA eB)
  qed
  then show ?thesis
    by (simp add: renderRow_def Let_def s_def rs_def w_def y'_def n_def)
qed

text \<open>
  Claim C3. For every decodable buffer the output is the heading followed by one line
  per row: with a negative height field the \<open>i\<close>-th line renders stored row \<open>i\<close> (stored
  order), otherwise it renders stored row \<open>height - 1 - i\<close> (reverse stored order).
  Consequently a buffer that is identical except that it encodes the height \<open>-N\<close> instead
  of \<open>+N\<close> and stores the rows in reversed order renders to the same text.
\<close>

theorem height_sign_row_order:
  assumes "decodeBMPData A c0 c1 c2 c3 c4 = Some (Inr out)"
  shows "(\<exists>lines. length lines = nat (imgHeight A) \<and>
        out = heading (imgWidth A) (imgHeight A) (imgBpp A) @ concat lines \<and>
        (\<forall>i<nat (imgHeight A).
           renderRow (cellOf A c0 c1 c2 c3 c4) (imgStart A) (imgRowSize A) (imgWidth A)
             (if sint (Height (parseInfoHeader A)) < 0 then int i else imgHeight A - 1 - int i)
           = Inr (lines ! i))) \<and>
     (\<forall>B. mirrored A B \<and> len A < 2 ^ 63 \<longrightarrow> decodeBMPData B c0 c1 c2 c3 c4 = Some (Inr out))"
proof (intro conjI allI impI)
  note chk = decode_Inr_checks [OF assms]
  let ?rowA = "renderRow (cellOf A c0 c1 c2 c3 c4) (imgStart A) (imgRowSize A) (imgWidth A)"
  let ?td = "isTopDownOf (parseInfoHeader A)"
  from assms obtain rows where rows: "seqRows ?rowA (rowOrder ?td (imgHeight A)) = Inr rows"
    and out: "out = heading (imgWidth A) (imgHeight A) (imgBpp A) @ rows"
    unfolding decode_rows [OF chk] by (auto split: sum.splits)
  from seqRows_Inr [OF rows] obtain lines where
    lines: "length lines = nat (imgHeight A)" "rows = concat lines"
      "\<forall>i<nat (imgHeight A). ?rowA (rowOrder ?td (imgHeight A) ! i) = Inr (lines ! i)"
    by (auto simp add: length_rowOrder)
  have "\<forall>i<nat (imgHeight A).
      ?rowA (if sint (Height (parseInfoHeader A)) < 0 then int i else imgHeight A - 1 - int i)
        = Inr (lines ! i)"
    using lines(3) by (simp add: rowOrder_nth isTopDownOf_def)
  with lines(1,2) out
  show "\<exists>lines. length lines = nat (imgHeight A) \<and>
        out = heading (imgWidth A) (imgHeight A) (imgBpp A) @ concat lines \<and>
        (\<forall>i<nat (imgHeight A).
           ?rowA (if sint (Height (parseInfoHeader A)) < 0 then int i else imgHeight A - 1 - int i)
           = Inr (lines ! i))"
    by blast
next
  fix B
  assume "mirrored A B \<and> len A < 2 ^ 63"
  then have m: "mirrored A B" and lenA: "len A < 2 ^ 63"
    by simp_all
  note chk = decode_Inr_checks [OF assms]
  note hdr = mirrored_headers [OF m]
  let ?n = "imgHeight A"
  let ?rowA = "renderRow (cellOf A c0 c1 c2 c3 c4) (imgStart A) (imgRowSize A) (imgWidth A)"
  let ?rowB = "renderRow (cellOf B c0 c1 c2 c3 c4) (imgStart A) (imgRowSize A) (imgWidth A)"
  have lenB: "length B = length A"
    using m by (simp add: mirrored_def)
  have chkB: "54 \<le> length B" "Signature (parseHeader B) = 0x4D42" "imgBpp B \<in> {1, 4, 8, 24, 32}"
    "\<not> len B < add64 (imgStart B) (mul64 (rowSizeOf (imgWidth B) (imgBpp B)) (imgHeight B))"
    using chk by (simp_all add: hdr lenB len_def)
  have "seqRows ?rowB [0..?n - 1] = seqRows (\<lambda>y. ?rowA (?n - 1 - y)) [0..?n - 1]"
    by (rule seqRows_cong) (simp add: mirrored_rows [OF m lenA _ _ chk(3)])
  also have "\<dots> = seqRows ?rowA (rev [0..?n - 1])"
    by (simp add: rev_upto seqRows_map)
  finally have "seqRows ?rowB (rowOrder True ?n) = seqRows ?rowA (rowOrder False ?n)"
    by (simp add: rowOrder_def)
  then show "decodeBMPData B c0 c1 c2 c3 c4 = Some (Inr out)"
    using assms unfolding decode_rows [OF chk] decode_rows [OF chkB]
    by (simp add: hdr cong: sum.case_cong)
qed

lemma bmpFile_header_bytes:
  assumes "i < 54" "i < 22 \<or> 26 \<le> i"
  shows "bmpFile off w h bpp px ! i = bmpFile off w h' bpp px' ! i"
proof -
  define P where "P = [0x42, 0x4D] @ putUint32 0 @ putUint32 0 @ putUint32 off
    @ putUint32 40 @ putUint32 w"
  define Q where "Q = putUint16 1 @ putUint16 bpp
    @ putUint32 0 @ putUint32 0 @ putUint32 0 @ putUint32 0 @ putUint32 0 @ putUint32 0"
  have split: "bmpFile off w k bpp qx = P @ putUint32 k @ Q @ qx" for k qx
    by (simp add: bmpFile_def P_def Q_def)
  have len: "length P = 22" "length Q = 28"
    by (simp_all add: P_def Q_def length_putUint32 length_putUint16)
  show ?thesis
    using assms unfolding split by (auto simp add: nth_append len length_putUint32)
qed

lemma drop_bmpFile: "drop (54 + n) (bmpFile off w h bpp px) = drop n px"
  by (subst bmpFile_append) (simp add: length_bmpFile)

lemma mirrored_up_down: "mirrored upBmp downBmp"
proof -
  have fields: "imgStart upBmp = 54" "imgWidth upBmp = 8" "imgBpp upBmp = 1"
    "imgHeight upBmp = 2" "sint (Height (parseInfoHeader upBmp)) = 2"
    "imgStart downBmp = 54" "imgWidth downBmp = 8" "imgBpp downBmp = 1"
    "sint (Height (parseInfoHeader downBmp)) = - 2"
    by (simp_all add: upBmp_def downBmp_def parseHeader_bmpFile parseInfoHeader_bmpFile
        heightOf_def isTopDownOf_def)
  have rs: "rowSizeOf 8 1 = 4"
    by (simp add: rowSizeOf_def add64_def mul64_def wrap64_def signed_divide_int_def)
  have lens: "length upBmp = 62" "length downBmp = 62"
    by (simp_all add: upBmp_def downBmp_def length_bmpFile)
  have hdr: "\<forall>i<54. i < 22 \<or> 26 \<le> i \<longrightarrow> downBmp ! i = upBmp ! i"
    unfolding upBmp_def downBmp_def using bmpFile_header_bytes by blast
  have "rowBytes downBmp 0 = take 4 (drop (54 + 0) downBmp)"
    "rowBytes downBmp 1 = take 4 (drop (54 + 4) downBmp)"
    "rowBytes upBmp 0 = take 4 (drop (54 + 0) upBmp)"
    "rowBytes upBmp 1 = take 4 (drop (54 + 4) upBmp)"
    by (simp_all add: rowBytes_def fields rs)
  then have "rowBytes downBmp 0 = rowBytes upBmp 1" "rowBytes downBmp 1 = rowBytes upBmp 0"
    unfolding upBmp_def downBmp_def drop_bmpFile by simp_all
  then have rows: "\<forall>y\<in>set [0..imgHeight upBmp - 1]. rowBytes downBmp y = rowBytes upBmp (imgHeight upBmp - 1 - y)"
    by (simp add: fields upto_rec1)
  show ?thesis
    unfolding mirrored_def using hdr rows by (simp add: fields rs lens len_def)
qed

theorem height_sign_row_order_witness:
  "decodeBMPData upBmp ''0'' ''1'' ''2'' ''3'' ''4'' =
     Some (Inr (heading 8 2 1 @ ''    10000001'' @ newline @ ''    11110000'' @ newline)) \<and>
   mirrored upBmp downBmp \<and> len upBmp < 2 ^ 63 \<and>
   decodeBMPData downBmp ''0'' ''1'' ''2'' ''3'' ''4'' =
     Some (Inr (heading 8 2 1 @ ''    10000001'' @ newline @ ''    11110000'' @ newline))"
proof -
  have up: "decodeBMPData upBmp ''0'' ''1'' ''2'' ''3'' ''4'' =
     Some (Inr (heading 8 2 1 @ ''    10000001'' @ newline @ ''    11110000'' @ newline))"
    by code_simp
  have len: "len upBmp < 2 ^ 63"
    by (simp add: len_def upBmp_def length_bmpFile)
  from height_sign_row_order [OF up, THEN conjunct2, rule_format, of downBmp]
    mirrored_up_down len
  have "decodeBMPData downBmp ''0'' ''1'' ''2'' ''3'' ''4'' =
     Some (Inr (heading 8 2 1 @ ''    10000001'' @ newline @ ''    11110000'' @ newline))"
    by blast
  with up mirrored_up_down len show ?thesis
    by blast
qed

end
